theory Spec2Isabelle
  imports Complex_Main "HOL-Library.AList"
begin

unbundle bit_operations_syntax

section \<open>The breed folder cleaner of create\_dataset.py\<close>

text \<open>
  This theory embeds \<^verbatim>\<open>clean_breed_folder\<close> and its helpers
  (\<^verbatim>\<open>list_images\<close>, \<^verbatim>\<open>file_md5\<close>, \<^verbatim>\<open>ensure_pillow_image\<close>,
  \<^verbatim>\<open>exif_normalize_and_convert_jpg\<close>, \<^verbatim>\<open>cv2_read_size\<close>, \<^verbatim>\<open>simple_dhash\<close>,
  \<^verbatim>\<open>hamming_distance\<close>, \<^verbatim>\<open>CatFilter\<close>, \<^verbatim>\<open>CleanStats\<close>) of
  \<^verbatim>\<open>src/create_dataset.py\<close>.

  The libraries the script calls (Pillow, OpenCV, hashlib, imagehash, Keras) are not code of
  the repository: what they return for the bytes of a file is a field of the record
  \<open>env\<close>, together with the three module-level flags the script sets while importing them.
  The folder being cleaned is the record \<open>world\<close>.
\<close>

subsection \<open>Paths and the folder\<close>

text \<open>
  A file name is kept split the way \<^verbatim>\<open>os.path.splitext\<close> returns it: \<open>stem\<close> is the
  part before the last dot and \<open>ext\<close> the extension with its dot, so that
  \<^verbatim>\<open>base + ".jpg"\<close> is \<open>Path (stem p) ''.jpg''\<close>. All names are names inside the one
  folder passed to \<^verbatim>\<open>clean_breed_folder\<close>.
\<close>

datatype path = Path (stem: string) (ext: string)

type_synonym bytes = string

text \<open>
  \<open>files\<close> are the directory entries in the order the operating system lists them;
  \<open>locked\<close> are the names whose \<^verbatim>\<open>os.remove\<close> raises although the file is there
  (a permission error). The calls of the converter (source and target) and of the
  perceptual hash are recorded in \<open>converted\<close> and \<open>hashed\<close>, oldest first, so that
  "nothing was converted" and "no hash was computed" are statements about the state.
\<close>

record world =
  files :: "(path \<times> bytes) list"
  locked :: "path list"
  converted :: "(path \<times> path) list"
  hashed :: "path list"

definition read_file :: "world \<Rightarrow> path \<Rightarrow> bytes option" where
  "read_file w p = map_of (files w) p"

definition path_exists :: "world \<Rightarrow> path \<Rightarrow> bool" where
  "path_exists w p = (read_file w p \<noteq> None)"

text \<open>\<^verbatim>\<open>os.remove(p)\<close>: \<open>None\<close> is the exception (no such file, or not permitted).\<close>

definition os_remove :: "world \<Rightarrow> path \<Rightarrow> world option" where
  "os_remove w p =
     (if path_exists w p \<and> p \<notin> set (locked w)
      then Some (w\<lparr>files := filter (\<lambda>e. fst e \<noteq> p) (files w)\<rparr>)
      else None)"

text \<open>The idiom \<^verbatim>\<open>try: os.remove(p) except Exception: pass\<close>.\<close>

definition try_remove :: "world \<Rightarrow> path \<Rightarrow> world" where
  "try_remove w p = (case os_remove w p of Some w' \<Rightarrow> w' | None \<Rightarrow> w)"

definition write_file :: "world \<Rightarrow> path \<Rightarrow> bytes \<Rightarrow> world" where
  "write_file w p b = w\<lparr>files := AList.update p b (files w)\<rparr>"

definition log_convert :: "world \<Rightarrow> path \<Rightarrow> path \<Rightarrow> world" where
  "log_convert w p out_path = w\<lparr>converted := converted w @ [(p, out_path)]\<rparr>"

definition log_hash :: "world \<Rightarrow> path \<Rightarrow> world" where
  "log_hash w p = w\<lparr>hashed := hashed w @ [p]\<rparr>"

text \<open>
  \<^verbatim>\<open>glob.glob(os.path.join(folder, "*.jpg"))\<close> on a POSIX file system: the pattern is
  matched with the case of the letters, and \<^verbatim>\<open>*\<close> does not match a name that starts
  with a dot.
\<close>

definition hidden :: "path \<Rightarrow> bool" where
  "hidden p = (case stem p of [] \<Rightarrow> True | c # _ \<Rightarrow> c = CHR ''.'')"

definition glob_ext :: "world \<Rightarrow> string \<Rightarrow> path list" where
  "glob_ext w e = filter (\<lambda>p. ext p = e \<and> \<not> hidden p) (map fst (files w))"

definition exts :: "string list" where
  "exts = [''.jpg'', ''.jpeg'', ''.png'', ''.bmp'', ''.webp'', ''.gif'']"

definition list_images :: "world \<Rightarrow> path list" where
  "list_images w = concat (map (glob_ext w) exts)"

text \<open>\<^verbatim>\<open>str.lower\<close> on the ASCII letters an extension is made of.\<close>

definition lower_char :: "char \<Rightarrow> char" where
  "lower_char c =
     (if 65 \<le> (of_char c :: nat) \<and> (of_char c :: nat) \<le> 90
      then char_of (of_char c + (32 :: nat)) else c)"

definition lower :: "string \<Rightarrow> string" where
  "lower s = map lower_char s"

subsection \<open>The libraries\<close>

text \<open>
  \<open>pil_open_load\<close> is \<^verbatim>\<open>Image.open(path)\<close> followed by \<^verbatim>\<open>im.load()\<close>:
  \<open>Pil_unreadable\<close> stands for the two exceptions \<^verbatim>\<open>ensure_pillow_image\<close> catches
  (\<^verbatim>\<open>UnidentifiedImageError\<close>, \<^verbatim>\<open>OSError\<close>), \<open>Pil_raised\<close> for any other, which
  nothing in \<^verbatim>\<open>clean_breed_folder\<close> catches.
\<close>

datatype pil_outcome = Pil_loaded | Pil_unreadable | Pil_raised

text \<open>
  \<^item> \<open>cv2_imdecode\<close>: \<^verbatim>\<open>img.shape[:2]\<close>, that is (height, width), of
    \<^verbatim>\<open>cv2.imdecode(np.fromfile(path), IMREAD_UNCHANGED)\<close>; \<open>None\<close> when the image is
    \<^verbatim>\<open>None\<close> or the call raises.
  \<^item> \<open>pil_save_jpeg\<close>: the bytes \<^verbatim>\<open>exif_normalize_and_convert_jpg\<close> writes (transpose,
    flatten on white, save as JPEG at quality 92); \<open>None\<close> when any step raises. A failed
    conversion is taken to write nothing.
  \<^item> \<open>hashlib_md5\<close>: the hex digest of the bytes.
  \<^item> \<open>imagehash_phash\<close>: \<^verbatim>\<open>int(str(imagehash.phash(im, hash_size=16)), 16)\<close>;
    \<open>None\<close> when it raises.
  \<^item> \<open>pil_gray_resize b w h\<close>: the pixels of
    \<^verbatim>\<open>img.convert("L").resize((w, h), LANCZOS)\<close> as a function of the column \<open>x\<close> and the
    row \<open>y\<close>; \<open>None\<close> when it raises.
  \<^item> \<open>MobileNetV2\<close>: the outcome of \<^verbatim>\<open>MobileNetV2(weights="imagenet")\<close>: \<open>None\<close> when
    the constructor raises, otherwise the model, as the function from the bytes of a file to
    \<^verbatim>\<open>preds[0]\<close> of the steps open, convert, resize, preprocess and predict
    (\<open>None\<close> when one of them raises).
\<close>

record env =
  PIL_OK :: bool
  TF_OK :: bool
  IMAGEHASH_OK :: bool
  pil_open_load :: "bytes \<Rightarrow> pil_outcome"
  cv2_imdecode :: "bytes \<Rightarrow> (int \<times> int) option"
  pil_save_jpeg :: "bytes \<Rightarrow> bytes option"
  hashlib_md5 :: "bytes \<Rightarrow> string"
  imagehash_phash :: "bytes \<Rightarrow> int option"
  pil_gray_resize :: "bytes \<Rightarrow> nat \<Rightarrow> nat \<Rightarrow> (nat \<Rightarrow> nat \<Rightarrow> int) option"
  MobileNetV2 :: "(bytes \<Rightarrow> real list option) option"

subsection \<open>Helpers\<close>

definition file_md5 :: "env \<Rightarrow> world \<Rightarrow> path \<Rightarrow> string option" where
  "file_md5 E w p = map_option (hashlib_md5 E) (read_file w p)"

text \<open>
  \<^verbatim>\<open>ensure_pillow_image\<close>: a missing file is an \<^verbatim>\<open>OSError\<close>. The image object it
  returns is only compared with \<^verbatim>\<open>None\<close>.
\<close>

definition ensure_pillow_image :: "env \<Rightarrow> world \<Rightarrow> path \<Rightarrow> pil_outcome" where
  "ensure_pillow_image E w p =
     (if \<not> PIL_OK E then Pil_unreadable
      else case read_file w p of
             None \<Rightarrow> Pil_unreadable
           | Some b \<Rightarrow> pil_open_load E b)"

text \<open>
  \<^verbatim>\<open>exif_normalize_and_convert_jpg(path, out_path)\<close>: the flag it returns and the folder
  after it.
\<close>

definition exif_normalize_and_convert_jpg :: "env \<Rightarrow> world \<Rightarrow> path \<Rightarrow> path \<Rightarrow> bool \<times> world" where
  "exif_normalize_and_convert_jpg E w p out_path =
     (if \<not> PIL_OK E then (False, w)
      else let w1 = log_convert w p out_path in
           case read_file w1 p of
             None \<Rightarrow> (False, w1)
           | Some b \<Rightarrow> (case pil_save_jpeg E b of
                          None \<Rightarrow> (False, w1)
                        | Some j \<Rightarrow> (True, write_file w1 out_path j)))"

definition cv2_read_size :: "env \<Rightarrow> world \<Rightarrow> path \<Rightarrow> int \<times> int" where
  "cv2_read_size E w p =
     (case read_file w p of
        None \<Rightarrow> (0, 0)
      | Some b \<Rightarrow> (case cv2_imdecode E b of
                     None \<Rightarrow> (0, 0)
                   | Some (h, wd) \<Rightarrow> (wd, h)))"

text \<open>
  \<^verbatim>\<open>simple_dhash\<close>: the two nested loops append \<^verbatim>\<open>left > right\<close> row by row, and the
  last loop folds the bits into an integer, first bit highest.
\<close>

definition dhash_bits :: "(nat \<Rightarrow> nat \<Rightarrow> int) \<Rightarrow> nat \<Rightarrow> bool list" where
  "dhash_bits px hash_size =
     concat (map (\<lambda>y. map (\<lambda>x. px x y > px (x + 1) y) [0..<hash_size]) [0..<hash_size])"

definition bits_to_int :: "bool list \<Rightarrow> int" where
  "bits_to_int diff = foldl (\<lambda>v b. push_bit 1 v OR of_bool b) 0 diff"

definition simple_dhash :: "env \<Rightarrow> world \<Rightarrow> path \<Rightarrow> nat \<Rightarrow> int option" where
  "simple_dhash E w p hash_size =
     (if \<not> PIL_OK E then None
      else case read_file w p of
             None \<Rightarrow> None
           | Some b \<Rightarrow> (case pil_gray_resize E b (hash_size + 1) hash_size of
                          None \<Rightarrow> None
                        | Some px \<Rightarrow> Some (bits_to_int (dhash_bits px hash_size))))"

text \<open>\<^verbatim>\<open>int.bit_count\<close> counts the ones of the absolute value.\<close>

fun popcount :: "nat \<Rightarrow> nat" where
  "popcount n = (if n = 0 then 0 else n mod 2 + popcount (n div 2))"

declare popcount.simps [simp del]

definition bit_count :: "int \<Rightarrow> int" where
  "bit_count a = int (popcount (nat \<bar>a\<bar>))"

definition hamming_distance :: "int \<Rightarrow> int \<Rightarrow> int" where
  "hamming_distance a b = bit_count (a XOR b)"


subsection \<open>The cat filter\<close>

text \<open>
  \<^verbatim>\<open>class CatFilter\<close>. The confidence and the threshold are Python floats that are only
  compared; they are modelled as reals (a NaN, which compares false with everything, is not
  represented). The logger is left out.
\<close>

record CatFilter =
  threshold :: real
  disabled :: bool
  model :: "(bytes \<Rightarrow> real list option) option"

definition CatFilter_init :: "env \<Rightarrow> real \<Rightarrow> bool \<Rightarrow> CatFilter" where
  "CatFilter_init E thr dis =
     (if dis \<or> \<not> TF_OK E
      then \<lparr>threshold = thr, disabled = True, model = None\<rparr>
      else case MobileNetV2 E of
             Some m \<Rightarrow> \<lparr>threshold = thr, disabled = False, model = Some m\<rparr>
           | None \<Rightarrow> \<lparr>threshold = thr, disabled = True, model = None\<rparr>)"

text \<open>\<^verbatim>\<open>np.argmax\<close>: the first index of the maximum; it raises on an empty array.\<close>

fun argmax_from :: "nat \<Rightarrow> real \<Rightarrow> nat \<Rightarrow> real list \<Rightarrow> nat" where
  "argmax_from best_i best_v i [] = best_i"
| "argmax_from best_i best_v i (x # xs) =
     (if x > best_v then argmax_from i x (i + 1) xs
      else argmax_from best_i best_v (i + 1) xs)"

definition argmax :: "real list \<Rightarrow> nat option" where
  "argmax preds = (case preds of [] \<Rightarrow> None | x # xs \<Rightarrow> Some (argmax_from 0 x 1 xs))"

text \<open>
  \<open>predict\<close> is the body of the \<^verbatim>\<open>try\<close> of \<^verbatim>\<open>is_cat\<close> up to \<^verbatim>\<open>prob\<close>:
  the top class and its confidence, or \<open>None\<close> when an exception is raised (the name
  \<^verbatim>\<open>Image\<close> is undefined without Pillow, the file is missing, a library call raises).
\<close>

definition predict :: "env \<Rightarrow> CatFilter \<Rightarrow> world \<Rightarrow> path \<Rightarrow> (nat \<times> real) option" where
  "predict E cf w p =
     (if \<not> PIL_OK E then None
      else case model cf of
             None \<Rightarrow> None
           | Some m \<Rightarrow> (case read_file w p of
                          None \<Rightarrow> None
                        | Some b \<Rightarrow> (case m b of
                                       None \<Rightarrow> None
                                     | Some preds \<Rightarrow> (case argmax preds of
                                                        None \<Rightarrow> None
                                                      | Some top_i \<Rightarrow> Some (top_i, preds ! top_i)))))"

definition is_cat :: "env \<Rightarrow> CatFilter \<Rightarrow> world \<Rightarrow> path \<Rightarrow> bool" where
  "is_cat E cf w p =
     (if disabled cf \<or> model cf = None then True
      else case predict E cf w p of
             None \<Rightarrow> False
           | Some (top_i, prob) \<Rightarrow> (281 \<le> top_i \<and> top_i \<le> 285) \<and> prob \<ge> threshold cf)"

subsection \<open>The statistics\<close>

text \<open>
  \<^verbatim>\<open>class CleanStats\<close>. The fields \<^verbatim>\<open>before\<close> and \<^verbatim>\<open>after\<close> are
  \<open>before_n\<close> and \<open>after_n\<close> here.
\<close>

record CleanStats =
  before_n :: int
  removed_small :: int
  removed_broken :: int
  removed_notcat :: int
  removed_dup_md5 :: int
  removed_dup_phash :: int
  after_n :: int

definition CleanStats_init :: CleanStats where
  "CleanStats_init =
     \<lparr>before_n = 0, removed_small = 0, removed_broken = 0, removed_notcat = 0,
      removed_dup_md5 = 0, removed_dup_phash = 0, after_n = 0\<rparr>"

definition removed_total :: "CleanStats \<Rightarrow> int" where
  "removed_total st =
     removed_small st + removed_broken st + removed_notcat st
     + removed_dup_md5 st + removed_dup_phash st"

subsection \<open>Stage 1: broken and small files, conversion to jpg\<close>

text \<open>
  One iteration of the first loop. The result is the folder, the statistics and the path
  appended to \<^verbatim>\<open>kept_paths\<close> (\<open>None\<close> after a \<^verbatim>\<open>continue\<close>); \<open>Inl\<close> is an
  exception that leaves \<^verbatim>\<open>clean_breed_folder\<close>. In the first two branches the counter
  is incremented inside the \<^verbatim>\<open>try\<close>, after \<^verbatim>\<open>os.remove\<close>; in the conversion branch
  it is incremented after the \<^verbatim>\<open>try\<close>.
\<close>

datatype error = Uncaught_exception

definition convert_step ::
  "env \<Rightarrow> bool \<Rightarrow> path \<Rightarrow> world \<Rightarrow> CleanStats \<Rightarrow> world \<times> CleanStats \<times> path option" where
  "convert_step E keep_intermediate p w st =
     (let out_jpg = Path (stem p) ''.jpg'' in
      if lower (ext p) \<notin> set [''.jpg'', ''.jpeg''] \<or> \<not> path_exists w out_jpg
      then case exif_normalize_and_convert_jpg E w p out_jpg of
             (True, w1) \<Rightarrow>
               ((if \<not> keep_intermediate then try_remove w1 p else w1), st, Some out_jpg)
           | (False, w1) \<Rightarrow>
               (try_remove w1 p, st\<lparr>removed_broken := removed_broken st + 1\<rparr>, None)
      else (w, st, Some p))"

definition stage1_file ::
  "env \<Rightarrow> int \<Rightarrow> bool \<Rightarrow> bool \<Rightarrow> path \<Rightarrow> world \<Rightarrow> CleanStats
     \<Rightarrow> error + (world \<times> CleanStats \<times> path option)" where
  "stage1_file E min_side jpg_only keep_intermediate p w st =
     (if PIL_OK E \<and> ensure_pillow_image E w p = Pil_raised then Inl Uncaught_exception
      else if PIL_OK E \<and> ensure_pillow_image E w p = Pil_unreadable
      then (case os_remove w p of
              Some w1 \<Rightarrow> Inr (w1, st\<lparr>removed_broken := removed_broken st + 1\<rparr>, None)
            | None \<Rightarrow> Inr (w, st, None))
      else case cv2_read_size E w p of
             (wd, h) \<Rightarrow>
               if wd = 0 \<or> h = 0 \<or> min wd h < min_side
               then (case os_remove w p of
                       Some w1 \<Rightarrow> Inr (w1, st\<lparr>removed_small := removed_small st + 1\<rparr>, None)
                     | None \<Rightarrow> Inr (w, st, None))
               else if jpg_only \<and> PIL_OK E
               then Inr (convert_step E keep_intermediate p w st)
               else Inr (w, st, Some p))"

fun stage1 ::
  "env \<Rightarrow> int \<Rightarrow> bool \<Rightarrow> bool \<Rightarrow> path list \<Rightarrow> world \<Rightarrow> CleanStats \<Rightarrow> path list
     \<Rightarrow> error + (world \<times> CleanStats \<times> path list)" where
  "stage1 E min_side jpg_only keep_intermediate [] w st kept_paths = Inr (w, st, kept_paths)"
| "stage1 E min_side jpg_only keep_intermediate (p # ps) w st kept_paths =
     (case stage1_file E min_side jpg_only keep_intermediate p w st of
        Inl e \<Rightarrow> Inl e
      | Inr (w1, st1, None) \<Rightarrow> stage1 E min_side jpg_only keep_intermediate ps w1 st1 kept_paths
      | Inr (w1, st1, Some q) \<Rightarrow>
          stage1 E min_side jpg_only keep_intermediate ps w1 st1 (kept_paths @ [q]))"

subsection \<open>Stage 2: the cat filter\<close>

fun stage2 ::
  "env \<Rightarrow> CatFilter \<Rightarrow> path list \<Rightarrow> world \<Rightarrow> CleanStats \<Rightarrow> path list
     \<Rightarrow> world \<times> CleanStats \<times> path list" where
  "stage2 E cf [] w st filtered_paths = (w, st, filtered_paths)"
| "stage2 E cf (p # ps) w st filtered_paths =
     (if is_cat E cf w p then stage2 E cf ps w st (filtered_paths @ [p])
      else stage2 E cf ps (try_remove w p)
             (st\<lparr>removed_notcat := removed_notcat st + 1\<rparr>) filtered_paths)"

subsection \<open>Stage 3: exact duplicates\<close>

text \<open>\<^verbatim>\<open>seen_md5\<close> is the dictionary from a digest to the first path that had it.\<close>

fun stage3 ::
  "env \<Rightarrow> path list \<Rightarrow> world \<Rightarrow> CleanStats \<Rightarrow> (string \<rightharpoonup> path) \<Rightarrow> path list
     \<Rightarrow> world \<times> CleanStats \<times> (string \<rightharpoonup> path) \<times> path list" where
  "stage3 E [] w st seen_md5 md5_filtered = (w, st, seen_md5, md5_filtered)"
| "stage3 E (p # ps) w st seen_md5 md5_filtered =
     (case file_md5 E w p of
        None \<Rightarrow>
          stage3 E ps (try_remove w p) (st\<lparr>removed_broken := removed_broken st + 1\<rparr>)
            seen_md5 md5_filtered
      | Some h \<Rightarrow>
          if seen_md5 h \<noteq> None
          then stage3 E ps (try_remove w p) (st\<lparr>removed_dup_md5 := removed_dup_md5 st + 1\<rparr>)
                 seen_md5 md5_filtered
          else stage3 E ps w st (seen_md5(h \<mapsto> p)) (md5_filtered @ [p]))"

subsection \<open>Stage 4: near duplicates\<close>

text \<open>
  The hash of one file inside the \<^verbatim>\<open>try\<close> of the fourth loop: \<open>None\<close> covers both
  an exception and \<^verbatim>\<open>simple_dhash\<close> returning \<^verbatim>\<open>None\<close>, which the loop treats alike
  (remove, count as broken, continue).
\<close>

definition perceptual_hash :: "env \<Rightarrow> world \<Rightarrow> path \<Rightarrow> int option" where
  "perceptual_hash E w p =
     (if IMAGEHASH_OK E
      then (if \<not> PIL_OK E then None
            else case read_file w p of
                   None \<Rightarrow> None
                 | Some b \<Rightarrow> imagehash_phash E b)
      else simple_dhash E w p 16)"

text \<open>
  The inner loop over \<^verbatim>\<open>seen_hashes\<close> with its \<^verbatim>\<open>break\<close>. The source writes the
  bound \<^verbatim>\<open>6\<close> in place; it is the parameter \<open>thr\<close> here, and \<open>clean_breed_folder\<close>
  passes 6.
\<close>

fun is_dup :: "int \<Rightarrow> (path \<times> int) list \<Rightarrow> int \<Rightarrow> bool" where
  "is_dup thr [] ph = False"
| "is_dup thr ((q, prev_h) # rest) ph =
     (if hamming_distance prev_h ph \<le> thr then True else is_dup thr rest ph)"

fun stage4 ::
  "int \<Rightarrow> env \<Rightarrow> path list \<Rightarrow> world \<Rightarrow> CleanStats \<Rightarrow> (path \<times> int) list \<Rightarrow> path list
     \<Rightarrow> world \<times> CleanStats \<times> (path \<times> int) list \<times> path list" where
  "stage4 thr E [] w st seen_hashes final_paths = (w, st, seen_hashes, final_paths)"
| "stage4 thr E (p # ps) w st seen_hashes final_paths =
     (let w1 = log_hash w p in
      case perceptual_hash E w1 p of
        None \<Rightarrow>
          stage4 thr E ps (try_remove w1 p) (st\<lparr>removed_broken := removed_broken st + 1\<rparr>)
            seen_hashes final_paths
      | Some ph \<Rightarrow>
          if is_dup thr seen_hashes ph
          then stage4 thr E ps (try_remove w1 p)
                 (st\<lparr>removed_dup_phash := removed_dup_phash st + 1\<rparr>) seen_hashes final_paths
          else stage4 thr E ps w1 st (seen_hashes @ [(p, ph)]) (final_paths @ [p]))"

subsection \<open>The whole pass\<close>

record config =
  min_side :: int
  jpg_only :: bool
  keep_intermediate :: bool
  remove_near_dup :: bool

definition clean_breed_folder ::
  "env \<Rightarrow> CatFilter \<Rightarrow> config \<Rightarrow> world \<Rightarrow> error + (CleanStats \<times> world)" where
  "clean_breed_folder E cat_filter c w =
     (let paths = list_images w;
          st0 = CleanStats_init\<lparr>before_n := int (length paths)\<rparr>
      in case stage1 E (min_side c) (jpg_only c) (keep_intermediate c) paths w st0 [] of
           Inl e \<Rightarrow> Inl e
         | Inr (w1, st1, kept_paths) \<Rightarrow>
             (case stage2 E cat_filter kept_paths w1 st1 [] of
                (w2, st2, filtered_paths) \<Rightarrow>
                  (case stage3 E filtered_paths w2 st2 Map.empty [] of
                     (w3, st3, seen_md5, md5_filtered) \<Rightarrow>
                       (case (if remove_near_dup c \<and> (PIL_OK E \<or> IMAGEHASH_OK E)
                              then (case stage4 6 E md5_filtered w3 st3 [] [] of
                                      (w4, st4, seen_hashes, final_paths) \<Rightarrow> (w4, st4, final_paths))
                              else (w3, st3, md5_filtered)) of
                          (w4, st4, final_paths) \<Rightarrow>
                            Inr (st4\<lparr>after_n := int (length final_paths)\<rparr>, w4)))))"

subsection \<open>Predicates used in the statements\<close>

text \<open>
  \<open>far_apart thr seen\<close>: every hash of the list is further than \<open>thr\<close> from every hash
  after it.
\<close>

fun far_apart :: "int \<Rightarrow> (path \<times> int) list \<Rightarrow> bool" where
  "far_apart thr [] = True"
| "far_apart thr (e # rest) =
     (list_all (\<lambda>e'. thr < hamming_distance (snd e) (snd e')) rest \<and> far_apart thr rest)"

text \<open>
  \<open>keep_first d S ps\<close>: the paths of \<open>ps\<close> that have a digest under \<open>d\<close> which is not
  in \<open>S\<close> and which no earlier path of \<open>ps\<close> has. The exact-duplicate stage is proved to
  append this list.
\<close>

fun keep_first :: "(path \<Rightarrow> string option) \<Rightarrow> string set \<Rightarrow> path list \<Rightarrow> path list" where
  "keep_first d S [] = []"
| "keep_first d S (p # ps) =
     (case d p of
        None \<Rightarrow> keep_first d S ps
      | Some h \<Rightarrow> if h \<in> S then keep_first d S ps else p # keep_first d (insert h S) ps)"

text \<open>
  \<open>passes_stage1 E c w p\<close>: the first loop keeps \<open>p\<close> as it is: Pillow (when present)
  loads it, OpenCV reports both sides non-zero and the shorter one at least \<open>min_side\<close>, and
  when conversion is requested (and Pillow present) the file is a \<^verbatim>\<open>.jpg\<close> already.
\<close>

definition passes_stage1 :: "env \<Rightarrow> config \<Rightarrow> world \<Rightarrow> path \<Rightarrow> bool" where
  "passes_stage1 E c w p =
     ((PIL_OK E \<longrightarrow> ensure_pillow_image E w p = Pil_loaded)
      \<and> (case cv2_read_size E w p of (wd, h) \<Rightarrow> wd \<noteq> 0 \<and> h \<noteq> 0 \<and> min_side c \<le> min wd h)
      \<and> (jpg_only c \<and> PIL_OK E \<longrightarrow> ext p = ''.jpg''))"

text \<open>
  \<open>size_ok E c b\<close>: OpenCV decodes the bytes \<open>b\<close> to an image whose sides are not 0 and
  whose shorter side is at least \<open>min_side\<close>. \<open>converter_sound E c\<close>: what the converter
  writes for a loadable image of sufficient size is again loadable and of sufficient size.
\<close>

definition size_ok :: "env \<Rightarrow> config \<Rightarrow> bytes \<Rightarrow> bool" where
  "size_ok E c b =
     (case cv2_imdecode E b of
        None \<Rightarrow> False
      | Some (h, wd) \<Rightarrow> wd \<noteq> 0 \<and> h \<noteq> 0 \<and> min_side c \<le> min wd h)"

definition converter_sound :: "env \<Rightarrow> config \<Rightarrow> bool" where
  "converter_sound E c =
     (\<forall>b j. pil_save_jpeg E b = Some j \<and> pil_open_load E b = Pil_loaded \<and> size_ok E c b
            \<longrightarrow> pil_open_load E j = Pil_loaded \<and> size_ok E c j)"

text \<open>
  \<open>stage1_inv E c w kept ps\<close>, the invariant of the first loop used for a second run:
  nothing is locked, no two directory entries have one name, the paths kept so far and the
  paths still to come have different stems, they are exactly the images the folder lists,
  and the kept ones pass the first loop unchanged.
\<close>

definition stage1_inv :: "env \<Rightarrow> config \<Rightarrow> world \<Rightarrow> path list \<Rightarrow> path list \<Rightarrow> bool" where
  "stage1_inv E c w kept ps =
     (locked w = [] \<and> distinct (map fst (files w)) \<and> distinct (map stem (kept @ ps))
      \<and> set (list_images w) = set kept \<union> set ps
      \<and> (\<forall>q\<in>set kept. passes_stage1 E c w q))"

section \<open>Example folders and libraries\<close>

text \<open>
  Concrete inputs for the closed theorems below. The bytes of a file are a short word that
  says what the libraries make of it: \<open>''junk''\<close> cannot be decoded, \<open>''tiny''\<close> is a
  50 by 60 image, every other file is 300 by 200.
\<close>

definition net :: "bytes \<Rightarrow> real list option" where
  "net b = (if b = ''cat'' then Some (replicate 282 0 @ [9/10, 1/10])
            else if b = ''dog'' then Some (replicate 207 0 @ [4/5, 1/5])
            else if b = ''blur'' then Some (replicate 281 0 @ [1/10, 1/20])
            else None)"

definition phash_table :: "(bytes \<times> int) list" where
  "phash_table = [(''a'', 0), (''b'', 63), (''c'', 127), (''d'', 2047), (''e'', 63551),
                  (''jpg of c'', 127)]"

definition stripes :: "nat \<Rightarrow> nat \<Rightarrow> int" where
  "stripes x y = (if x = 0 then 255 else 0)"

definition E_all :: env where
  "E_all = \<lparr>PIL_OK = True, TF_OK = True, IMAGEHASH_OK = True,
     pil_open_load = (\<lambda>b. if b = ''junk'' then Pil_unreadable else Pil_loaded),
     cv2_imdecode = (\<lambda>b. if b = ''junk'' then None
                          else if b = ''tiny'' then Some (50, 60) else Some (200, 300)),
     pil_save_jpeg = (\<lambda>b. if b = ''junk'' then None else Some (''jpg of '' @ b)),
     hashlib_md5 = (\<lambda>b. b),
     imagehash_phash = map_of phash_table,
     pil_gray_resize = (\<lambda>b w h. if b = ''junk'' then None else Some stripes),
     MobileNetV2 = Some net\<rparr>"

definition E_no_tf :: env where
  "E_no_tf = E_all\<lparr>TF_OK := False, MobileNetV2 := None\<rparr>"

definition E_no_imagehash :: env where
  "E_no_imagehash = E_all\<lparr>IMAGEHASH_OK := False\<rparr>"

definition E_bare :: env where
  "E_bare = E_all\<lparr>PIL_OK := False, IMAGEHASH_OK := False, TF_OK := False, MobileNetV2 := None\<rparr>"

definition folder :: "(path \<times> bytes) list \<Rightarrow> world" where
  "folder fs = \<lparr>files = fs, locked = [], converted = [], hashed = []\<rparr>"

definition w_pets :: world where
  "w_pets = folder [(Path ''1'' ''.jpg'', ''cat''), (Path ''2'' ''.jpg'', ''dog''),
                    (Path ''3'' ''.jpg'', ''junk'')]"

definition c_plain :: config where
  "c_plain = \<lparr>min_side = 128, jpg_only = False, keep_intermediate = False, remove_near_dup = True\<rparr>"

definition w_abc :: world where
  "w_abc = folder [(Path ''x'' ''.jpg'', ''a''), (Path ''y'' ''.jpg'', ''b''),
                   (Path ''z'' ''.jpg'', ''c'')]"

definition w_abde :: world where
  "w_abde = folder [(Path ''p'' ''.jpg'', ''a''), (Path ''q'' ''.jpg'', ''b''),
                    (Path ''r'' ''.jpg'', ''d''), (Path ''s'' ''.jpg'', ''e'')]"






definition w_locked :: world where
  "w_locked = \<lparr>files = [(Path ''1'' ''.jpg'', ''junk'')], locked = [Path ''1'' ''.jpg''],
                converted = [], hashed = []\<rparr>"



section \<open>Properties\<close>

subsection \<open>The folder\<close>

lemma map_of_filter_other:
  "q \<noteq> p \<Longrightarrow> map_of (filter (\<lambda>e. fst e \<noteq> p) xs) q = map_of xs q"
  by (induction xs) auto


lemma read_file_try_remove:
  "q \<noteq> p \<Longrightarrow> read_file (try_remove w p) q = read_file w q"
  by (simp add: try_remove_def os_remove_def read_file_def map_of_filter_other)


subsection \<open>The top class\<close>






subsection \<open>What each stage leaves alone\<close>

lemma try_remove_frame [simp]:
  "hashed (try_remove w p) = hashed w" "converted (try_remove w p) = converted w"
  "locked (try_remove w p) = locked w"
  by (simp_all add: try_remove_def os_remove_def)

lemma os_remove_frame:
  "os_remove w p = Some w1 \<Longrightarrow>
     hashed w1 = hashed w \<and> converted w1 = converted w \<and> locked w1 = locked w"
  by (auto simp: os_remove_def split: if_splits)

lemma convert_frame:
  "exif_normalize_and_convert_jpg E w p q = (ok, w1) \<Longrightarrow>
     hashed w1 = hashed w \<and> locked w1 = locked w"
  by (auto simp: exif_normalize_and_convert_jpg_def log_convert_def write_file_def Let_def
      split: if_splits option.splits)

lemma convert_step_frame:
  "convert_step E ki p w st = (w1, st1, r) \<Longrightarrow>
     hashed w1 = hashed w \<and> locked w1 = locked w
     \<and> removed_dup_phash st1 = removed_dup_phash st \<and> removed_dup_md5 st1 = removed_dup_md5 st
     \<and> removed_notcat st1 = removed_notcat st \<and> removed_small st1 = removed_small st
     \<and> before_n st1 = before_n st"
  by (auto simp: convert_step_def Let_def split: if_splits prod.splits bool.splits
      dest: convert_frame)

lemma stage1_file_frame:
  "stage1_file E ms jo ki p w st = Inr (w1, st1, r) \<Longrightarrow>
     hashed w1 = hashed w \<and> locked w1 = locked w
     \<and> removed_dup_phash st1 = removed_dup_phash st \<and> removed_dup_md5 st1 = removed_dup_md5 st
     \<and> removed_notcat st1 = removed_notcat st \<and> before_n st1 = before_n st"
  by (auto simp: stage1_file_def split: if_splits prod.splits option.splits
      dest: convert_step_frame os_remove_frame)

lemma stage1_frame:
  "stage1 E ms jo ki ps w st kept = Inr (w1, st1, kept1) \<Longrightarrow>
     hashed w1 = hashed w \<and> locked w1 = locked w
     \<and> removed_dup_phash st1 = removed_dup_phash st \<and> removed_dup_md5 st1 = removed_dup_md5 st
     \<and> removed_notcat st1 = removed_notcat st \<and> before_n st1 = before_n st"
proof (induction ps arbitrary: w st kept)
  case Nil
  then show ?case by simp
next
  case (Cons p ps)
  then show ?case
    by (auto split: sum.splits prod.splits option.splits dest!: stage1_file_frame)
qed

lemma stage2_frame:
  "stage2 E cf ps w st acc = (w1, st1, acc1) \<Longrightarrow>
     hashed w1 = hashed w \<and> converted w1 = converted w \<and> locked w1 = locked w
     \<and> removed_dup_phash st1 = removed_dup_phash st \<and> removed_dup_md5 st1 = removed_dup_md5 st
     \<and> removed_broken st1 = removed_broken st \<and> removed_small st1 = removed_small st
     \<and> before_n st1 = before_n st"
proof (induction ps arbitrary: w st acc)
  case Nil
  then show ?case by simp
next
  case (Cons p ps)
  show ?case
  proof (cases "is_cat E cf w p")
    case True
    with Cons show ?thesis by simp
  next
    case False
    with Cons.prems Cons.IH [of "try_remove w p" "st\<lparr>removed_notcat := removed_notcat st + 1\<rparr>" acc]
    show ?thesis by simp
  qed
qed

lemma stage3_frame:
  "stage3 E ps w st seen acc = (w1, st1, seen1, acc1) \<Longrightarrow>
     hashed w1 = hashed w \<and> converted w1 = converted w \<and> locked w1 = locked w
     \<and> removed_dup_phash st1 = removed_dup_phash st \<and> removed_notcat st1 = removed_notcat st
     \<and> removed_small st1 = removed_small st \<and> before_n st1 = before_n st"
proof (induction ps arbitrary: w st seen acc)
  case Nil
  then show ?case by simp
next
  case (Cons p ps)
  show ?case
  proof (cases "file_md5 E w p")
    case None
    with Cons.prems Cons.IH [of "try_remove w p" "st\<lparr>removed_broken := removed_broken st + 1\<rparr>" seen acc]
    show ?thesis by simp
  next
    case (Some h)
    show ?thesis
    proof (cases "seen h")
      case None
      with Some Cons.prems have "stage3 E ps w st (seen(h \<mapsto> p)) (acc @ [p]) = (w1, st1, seen1, acc1)"
        by simp
      from Cons.IH [OF this] show ?thesis .
    next
      case (Some q)
      with \<open>file_md5 E w p = Some h\<close> Cons.prems
        Cons.IH [of "try_remove w p" "st\<lparr>removed_dup_md5 := removed_dup_md5 st + 1\<rparr>" seen acc]
      show ?thesis by simp
    qed
  qed
qed

lemma stage1_file_no_pillow:
  "\<not> PIL_OK E \<Longrightarrow> \<exists>w1 st1 r. stage1_file E ms jo ki p w st = Inr (w1, st1, r) \<and> converted w1 = converted w"
  by (auto simp: stage1_file_def split: prod.splits option.splits dest: os_remove_frame)

lemma stage1_no_pillow:
  "\<not> PIL_OK E \<Longrightarrow>
     \<exists>w1 st1 kept1. stage1 E ms jo ki ps w st kept = Inr (w1, st1, kept1) \<and> converted w1 = converted w"
proof (induction ps arbitrary: w st kept)
  case Nil
  then show ?case by simp
next
  case (Cons p ps)
  from stage1_file_no_pillow [OF Cons.prems, of ms jo ki p w st]
  obtain w1 st1 r where s: "stage1_file E ms jo ki p w st = Inr (w1, st1, r)" "converted w1 = converted w"
    by blast
  show ?case
  proof (cases r)
    case None
    with s Cons.IH [OF Cons.prems, of w1 st1 kept] show ?thesis by simp
  next
    case (Some q)
    with s Cons.IH [OF Cons.prems, of w1 st1 "kept @ [q]"] show ?thesis by simp
  qed
qed


subsection \<open>The cat filter\<close>

lemma stage2_permissive:
  "disabled cf \<or> model cf = None \<Longrightarrow> stage2 E cf ps w st acc = (w, st, acc @ ps)"
  by (induction ps arbitrary: acc) (simp_all add: is_cat_def)

lemma CatFilter_init_off:
  "dis \<or> \<not> TF_OK E \<or> MobileNetV2 E = None \<Longrightarrow> disabled (CatFilter_init E thr dis)"
  by (auto simp: CatFilter_init_def split: option.splits)

lemma list_images_w_pets:
  "list_images w_pets = [Path ''1'' ''.jpg'', Path ''2'' ''.jpg'', Path ''3'' ''.jpg'']"
  by (simp add: list_images_def exts_def glob_ext_def w_pets_def folder_def hidden_def)

text \<open>
  C5. When the filter was built with the flag that disables it, or without TensorFlow, or the
  model failed to load, \<open>is_cat\<close> is true of every file in every folder, and the second
  stage passes every path on: the folder and the statistics are returned as they were.
\<close>

theorem classifier_off_is_permissive:
  "dis \<or> \<not> TF_OK E \<or> MobileNetV2 E = None \<Longrightarrow>
     (\<forall>w p. is_cat E (CatFilter_init E thr dis) w p)
     \<and> (\<forall>ps w st acc. stage2 E (CatFilter_init E thr dis) ps w st acc = (w, st, acc @ ps))"
  using CatFilter_init_off [of dis E thr] by (simp add: stage2_permissive is_cat_def)

theorem classifier_off_is_permissive_witness:
  "\<not> TF_OK E_no_tf
   \<and> is_cat E_no_tf (CatFilter_init E_no_tf (1/5) False) w_pets (Path ''2'' ''.jpg'')
   \<and> stage2 E_no_tf (CatFilter_init E_no_tf (1/5) False) (list_images w_pets) w_pets CleanStats_init []
       = (w_pets, CleanStats_init, [Path ''1'' ''.jpg'', Path ''2'' ''.jpg'', Path ''3'' ''.jpg''])"
proof -
  have tf: "\<not> TF_OK E_no_tf"
    by (simp add: E_no_tf_def)
  then have h: "False \<or> \<not> TF_OK E_no_tf \<or> MobileNetV2 E_no_tf = None"
    by simp
  show ?thesis
    using classifier_off_is_permissive [OF h, of "1/5"] tf by (simp add: list_images_w_pets)
qed










subsection \<open>Without Pillow and imagehash\<close>

text \<open>
  C10. With near-duplicate removal switched on and neither Pillow nor imagehash available,
  the run ends with the result of the exact-duplicate stage: every path of
  \<open>md5_filtered\<close> is counted in \<open>after_n\<close>, the folder is the one that stage left,
  \<open>removed_dup_phash\<close> is 0 and no perceptual hash was computed.
\<close>

theorem near_dup_stage_bypassed_without_libraries:
  assumes "remove_near_dup c" and "\<not> PIL_OK E" and "\<not> IMAGEHASH_OK E"
  shows "\<exists>w1 st1 kept_paths w2 st2 filtered_paths w3 st3 seen_md5 md5_filtered.
     stage1 E (min_side c) (jpg_only c) (keep_intermediate c) (list_images w) w
       (CleanStats_init\<lparr>before_n := int (length (list_images w))\<rparr>) [] = Inr (w1, st1, kept_paths)
     \<and> stage2 E cf kept_paths w1 st1 [] = (w2, st2, filtered_paths)
     \<and> stage3 E filtered_paths w2 st2 Map.empty [] = (w3, st3, seen_md5, md5_filtered)
     \<and> clean_breed_folder E cf c w = Inr (st3\<lparr>after_n := int (length md5_filtered)\<rparr>, w3)
     \<and> removed_dup_phash st3 = 0 \<and> hashed w3 = hashed w"
proof -
  let ?st0 = "CleanStats_init\<lparr>before_n := int (length (list_images w))\<rparr>"
  obtain w1 st1 kept_paths where
    s1: "stage1 E (min_side c) (jpg_only c) (keep_intermediate c) (list_images w) w ?st0 []
           = Inr (w1, st1, kept_paths)"
    using stage1_no_pillow [OF assms(2)] by blast
  obtain w2 st2 filtered_paths where s2: "stage2 E cf kept_paths w1 st1 [] = (w2, st2, filtered_paths)"
    by (cases "stage2 E cf kept_paths w1 st1 []") auto
  obtain w3 st3 seen_md5 md5_filtered where
    s3: "stage3 E filtered_paths w2 st2 Map.empty [] = (w3, st3, seen_md5, md5_filtered)"
    by (cases "stage3 E filtered_paths w2 st2 Map.empty []") auto
  have c: "clean_breed_folder E cf c w = Inr (st3\<lparr>after_n := int (length md5_filtered)\<rparr>, w3)"
    using assms s1 s2 s3 by (simp add: clean_breed_folder_def Let_def)
  have "removed_dup_phash st3 = 0 \<and> hashed w3 = hashed w"
    using stage1_frame [OF s1] stage2_frame [OF s2] stage3_frame [OF s3]
    by (simp add: CleanStats_init_def)
  with s1 s2 s3 c show ?thesis by blast
qed

theorem near_dup_stage_bypassed_without_libraries_witness:
  "remove_near_dup c_plain \<and> \<not> PIL_OK E_bare \<and> \<not> IMAGEHASH_OK E_bare
   \<and> clean_breed_folder E_bare (CatFilter_init E_bare (1/5) False) c_plain w_pets
       = Inr (\<lparr>before_n = 3, removed_small = 1, removed_broken = 0, removed_notcat = 0,
                removed_dup_md5 = 0, removed_dup_phash = 0, after_n = 2\<rparr>,
              folder [(Path ''1'' ''.jpg'', ''cat''), (Path ''2'' ''.jpg'', ''dog'')])
   \<and> (\<exists>w3 st3 (md5_filtered :: path list).
          clean_breed_folder E_bare (CatFilter_init E_bare (1/5) False) c_plain w_pets
            = Inr (st3\<lparr>after_n := int (length md5_filtered)\<rparr>, w3)
          \<and> removed_dup_phash st3 = 0 \<and> hashed w3 = hashed w_pets)"
proof -
  have h1: "remove_near_dup c_plain" by (simp add: c_plain_def)
  have h2: "\<not> PIL_OK E_bare" and h3: "\<not> IMAGEHASH_OK E_bare"
    by (simp_all add: E_bare_def)
  have e: "clean_breed_folder E_bare (CatFilter_init E_bare (1/5) False) c_plain w_pets
       = Inr (\<lparr>before_n = 3, removed_small = 1, removed_broken = 0, removed_notcat = 0,
                removed_dup_md5 = 0, removed_dup_phash = 0, after_n = 2\<rparr>,
              folder [(Path ''1'' ''.jpg'', ''cat''), (Path ''2'' ''.jpg'', ''dog'')])"
    by code_simp
  from near_dup_stage_bypassed_without_libraries
    [OF h1 h2 h3, of w_pets "CatFilter_init E_bare (1/5) False"]
  have "\<exists>w3 st3 (md5_filtered :: path list).
          clean_breed_folder E_bare (CatFilter_init E_bare (1/5) False) c_plain w_pets
            = Inr (st3\<lparr>after_n := int (length md5_filtered)\<rparr>, w3)
          \<and> removed_dup_phash st3 = 0 \<and> hashed w3 = hashed w_pets"
    by blast
  with h1 h2 h3 e show ?thesis by blast
qed


subsection \<open>The near-duplicate stage\<close>

lemma is_dup_iff: "is_dup thr seen ph \<longleftrightarrow> (\<exists>e\<in>set seen. hamming_distance (snd e) ph \<le> thr)"
  by (induction seen) auto

lemma hamming_distance_sym: "hamming_distance a b = hamming_distance b a"
  by (simp add: hamming_distance_def xor.commute)

lemma stage4_append:
  "stage4 thr E (xs @ ys) w st seen acc =
     (case stage4 thr E xs w st seen acc of
        (w1, st1, seen1, acc1) \<Rightarrow> stage4 thr E ys w1 st1 seen1 acc1)"
proof (induction xs arbitrary: w st seen acc)
  case Nil
  then show ?case by simp
next
  case (Cons p xs)
  then show ?case by (simp add: Let_def split: option.splits)
qed

lemma far_apart_snoc:
  "far_apart thr (seen @ [(p, ph)]) \<longleftrightarrow> far_apart thr seen \<and> \<not> is_dup thr seen ph"
  by (induction seen) (auto simp: is_dup_iff list_all_iff)

lemma far_apart_nth:
  "far_apart thr seen \<longleftrightarrow>
     (\<forall>i j. i < j \<and> j < length seen \<longrightarrow> thr < hamming_distance (snd (seen ! i)) (snd (seen ! j)))"
proof (induction seen)
  case Nil
  then show ?case by simp
next
  case (Cons e rest)
  show ?case
  proof
    assume a: "far_apart thr (e # rest)"
    show "\<forall>i j. i < j \<and> j < length (e # rest) \<longrightarrow>
            thr < hamming_distance (snd ((e # rest) ! i)) (snd ((e # rest) ! j))"
    proof (intro allI impI)
      fix i j assume ij: "i < j \<and> j < length (e # rest)"
      then obtain j' where j': "j = Suc j'" by (cases j) auto
      show "thr < hamming_distance (snd ((e # rest) ! i)) (snd ((e # rest) ! j))"
      proof (cases i)
        case 0
        with a ij j' show ?thesis by (auto simp: list_all_iff)
      next
        case (Suc i')
        with a ij j' Cons.IH show ?thesis by auto
      qed
    qed
  next
    assume a: "\<forall>i j. i < j \<and> j < length (e # rest) \<longrightarrow>
            thr < hamming_distance (snd ((e # rest) ! i)) (snd ((e # rest) ! j))"
    have "list_all (\<lambda>e'. thr < hamming_distance (snd e) (snd e')) rest"
      unfolding list_all_length
    proof (intro allI impI)
      fix n assume "n < length rest"
      with a [rule_format, of 0 "Suc n"] show "thr < hamming_distance (snd e) (snd (rest ! n))"
        by simp
    qed
    moreover have "far_apart thr rest"
      unfolding Cons.IH
    proof (intro allI impI)
      fix i j assume "i < j \<and> j < length rest"
      with a [rule_format, of "Suc i" "Suc j"]
      show "thr < hamming_distance (snd (rest ! i)) (snd (rest ! j))" by simp
    qed
    ultimately show "far_apart thr (e # rest)" by simp
  qed
qed

lemma far_apart_pairs:
  assumes "far_apart thr seen" "i < length seen" "j < length seen" "i \<noteq> j"
  shows "thr < hamming_distance (snd (seen ! i)) (snd (seen ! j))"
proof (cases "i < j")
  case True
  with assms far_apart_nth [of thr seen] show ?thesis by blast
next
  case False
  with assms have "j < i" by simp
  with assms far_apart_nth [of thr seen]
  have "thr < hamming_distance (snd (seen ! j)) (snd (seen ! i))" by blast
  then show ?thesis by (simp add: hamming_distance_sym)
qed

lemma stage4_invariant:
  assumes "stage4 thr E ps w st seen acc = (w1, st1, seen1, acc1)"
    and "far_apart thr seen" and "map fst seen = acc"
  shows "far_apart thr seen1 \<and> map fst seen1 = acc1"
  using assms
proof (induction ps arbitrary: w st seen acc)
  case Nil
  then show ?case by simp
next
  case (Cons p ps)
  let ?w1 = "log_hash w p"
  show ?case
  proof (cases "perceptual_hash E ?w1 p")
    case None
    with Cons.prems have "stage4 thr E ps (try_remove ?w1 p)
        (st\<lparr>removed_broken := removed_broken st + 1\<rparr>) seen acc = (w1, st1, seen1, acc1)"
      by (simp add: Let_def)
    from Cons.IH [OF this Cons.prems(2,3)] show ?thesis .
  next
    case (Some ph)
    show ?thesis
    proof (cases "is_dup thr seen ph")
      case True
      with Some Cons.prems have "stage4 thr E ps (try_remove ?w1 p)
          (st\<lparr>removed_dup_phash := removed_dup_phash st + 1\<rparr>) seen acc = (w1, st1, seen1, acc1)"
        by (simp add: Let_def)
      from Cons.IH [OF this Cons.prems(2,3)] show ?thesis .
    next
      case False
      with Some Cons.prems
      have s: "stage4 thr E ps ?w1 st (seen @ [(p, ph)]) (acc @ [p]) = (w1, st1, seen1, acc1)"
        by (simp add: Let_def)
      have f: "far_apart thr (seen @ [(p, ph)])"
        using False Cons.prems(2) by (simp add: far_apart_snoc)
      have m: "map fst (seen @ [(p, ph)]) = acc @ [p]"
        using Cons.prems(3) by simp
      from Cons.IH [OF s f m] show ?thesis .
    qed
  qed
qed

lemma is_dup_mono: "t1 \<le> t2 \<Longrightarrow> is_dup t1 seen ph \<Longrightarrow> is_dup t2 seen ph"
  by (induction seen) (auto split: if_splits)

lemma stage4_dup_count_mono:
  "removed_dup_phash st \<le> removed_dup_phash (fst (snd (stage4 thr E ps w st seen acc)))"
proof (induction ps arbitrary: w st seen acc)
  case Nil
  then show ?case by simp
next
  case (Cons p ps)
  let ?w1 = "log_hash w p"
  show ?case
  proof (cases "perceptual_hash E ?w1 p")
    case None
    with Cons [where w = "try_remove ?w1 p" and st = "st\<lparr>removed_broken := removed_broken st + 1\<rparr>"
        and seen = seen and acc = acc]
    show ?thesis by (simp add: Let_def)
  next
    case (Some ph)
    show ?thesis
    proof (cases "is_dup thr seen ph")
      case True
      with Some Cons [where w = "try_remove ?w1 p"
          and st = "st\<lparr>removed_dup_phash := removed_dup_phash st + 1\<rparr>" and seen = seen and acc = acc]
      show ?thesis by (simp add: Let_def)
    next
      case False
      with Some Cons [where w = ?w1 and st = st and seen = "seen @ [(p, ph)]" and acc = "acc @ [p]"]
      show ?thesis by (simp add: Let_def)
    qed
  qed
qed

lemma stage4_no_removal_same:
  assumes "t1 \<le> t2"
    and "removed_dup_phash (fst (snd (stage4 t2 E ps w st seen acc))) = removed_dup_phash st"
  shows "stage4 t1 E ps w st seen acc = stage4 t2 E ps w st seen acc"
  using assms(2)
proof (induction ps arbitrary: w st seen acc)
  case Nil
  then show ?case by simp
next
  case (Cons p ps)
  let ?w1 = "log_hash w p"
  show ?case
  proof (cases "perceptual_hash E ?w1 p")
    case None
    with Cons.prems Cons.IH [of "try_remove ?w1 p" "st\<lparr>removed_broken := removed_broken st + 1\<rparr>" seen acc]
    show ?thesis by (simp add: Let_def)
  next
    case (Some ph)
    show ?thesis
    proof (cases "is_dup t2 seen ph")
      case True
      from stage4_dup_count_mono [of "st\<lparr>removed_dup_phash := removed_dup_phash st + 1\<rparr>" t2 E ps
          "try_remove ?w1 p" seen acc] Cons.prems Some True
      show ?thesis by (simp add: Let_def)
    next
      case False
      then have "\<not> is_dup t1 seen ph" using is_dup_mono [OF assms(1)] by blast
      with False Some Cons.prems Cons.IH [of ?w1 st "seen @ [(p, ph)]" "acc @ [p]"]
      show ?thesis by (simp add: Let_def)
    qed
  qed
qed


lemma hamming_examples:
  "hamming_distance 0 63 = 6" "hamming_distance 63 127 = 1" "hamming_distance 0 127 = 7"
  "hamming_distance 0 2047 = 11" "hamming_distance 2047 0 = 11"
  "hamming_distance 63 2047 = 5" "hamming_distance 63 63551 = 5"
  "hamming_distance 0 63551 = 11" "hamming_distance 2047 63551 = 10"
  by (simp_all add: hamming_distance_def bit_count_def popcount.simps)

lemmas eval_defs = perceptual_hash_def log_hash_def read_file_def folder_def E_all_def
  phash_table_def try_remove_def os_remove_def path_exists_def Let_def hamming_examples
  CleanStats_init_def list_images_def exts_def glob_ext_def hidden_def

text \<open>
  C2, as stated, fails: on the four files of \<open>w_abde\<close>, whose hashes are 0, 63, 2047 and
  63551, the stage removes one file at threshold 6 (the second, at distance 6 from the
  first) and two files at threshold 5 (the second is now kept, and the third and fourth are
  at distance 5 from it).
\<close>

theorem lower_threshold_removes_more_counterexample:
  "removed_dup_phash (fst (snd (stage4 5 E_all (list_images w_abde) w_abde CleanStats_init [] []))) = 2
   \<and> removed_dup_phash (fst (snd (stage4 6 E_all (list_images w_abde) w_abde CleanStats_init [] []))) = 1"
  by (simp add: eval_defs w_abde_def)

text \<open>
  C2, amended. For thresholds \<open>t1 \<le> t2\<close>: against the same accepted hashes, a candidate
  that is a near-duplicate at \<open>t1\<close> is one at \<open>t2\<close>; and a scan that removes no
  near-duplicate at \<open>t2\<close> gives the same result at \<open>t1\<close>, so it removes none there either.
\<close>

theorem lower_threshold_flags_fewer_candidates:
  assumes "t1 \<le> t2"
  shows "(is_dup t1 seen ph \<longrightarrow> is_dup t2 seen ph)
         \<and> (removed_dup_phash (fst (snd (stage4 t2 E ps w st seen acc))) = removed_dup_phash st
              \<longrightarrow> stage4 t1 E ps w st seen acc = stage4 t2 E ps w st seen acc)"
  using is_dup_mono [OF assms] stage4_no_removal_same [OF assms] by blast

theorem lower_threshold_flags_fewer_candidates_witness:
  "(5 :: int) \<le> 6
   \<and> is_dup 5 [(Path ''q'' ''.jpg'', 63)] 2047 \<and> is_dup 6 [(Path ''q'' ''.jpg'', 63)] 2047
   \<and> removed_dup_phash (fst (snd (stage4 6 E_all [Path ''p'' ''.jpg'', Path ''r'' ''.jpg'']
         w_abde CleanStats_init [] [])))
       = removed_dup_phash CleanStats_init
   \<and> stage4 5 E_all [Path ''p'' ''.jpg'', Path ''r'' ''.jpg''] w_abde CleanStats_init [] []
       = stage4 6 E_all [Path ''p'' ''.jpg'', Path ''r'' ''.jpg''] w_abde CleanStats_init [] []"
proof -
  have h: "(5 :: int) \<le> 6" by simp
  have d: "is_dup 5 [(Path ''q'' ''.jpg'', 63)] 2047"
    by (simp add: hamming_examples)
  have n: "removed_dup_phash (fst (snd (stage4 6 E_all [Path ''p'' ''.jpg'', Path ''r'' ''.jpg'']
         w_abde CleanStats_init [] []))) = removed_dup_phash CleanStats_init"
    by (simp add: eval_defs w_abde_def)
  note t = lower_threshold_flags_fewer_candidates [OF h]
  from t [of "[(Path ''q'' ''.jpg'', 63)]" 2047] d
  have d6: "is_dup 6 [(Path ''q'' ''.jpg'', 63)] 2047" by blast
  from t [of "[]" 0 E_all "[Path ''p'' ''.jpg'', Path ''r'' ''.jpg'']" w_abde CleanStats_init "[]"] n
  have "stage4 5 E_all [Path ''p'' ''.jpg'', Path ''r'' ''.jpg''] w_abde CleanStats_init [] []
       = stage4 6 E_all [Path ''p'' ''.jpg'', Path ''r'' ''.jpg''] w_abde CleanStats_init [] []"
    by blast
  with h d d6 n show ?thesis by blast
qed

text \<open>
  C3, as stated, fails in its second part: in \<open>w_abc\<close> the hashes of y and z are at distance
  1, so the two are mutually near and y is evaluated first; but y is at distance 6 from x,
  which was accepted before, so y is removed, and z, at distance 7 from x, is the one kept.
\<close>

theorem first_of_near_group_not_kept_counterexample:
  "hamming_distance 63 127 \<le> 6
   \<and> stage4 6 E_all [Path ''x'' ''.jpg'', Path ''y'' ''.jpg'', Path ''z'' ''.jpg''] w_abc
       CleanStats_init [] []
     = (\<lparr>files = [(Path ''x'' ''.jpg'', ''a''), (Path ''z'' ''.jpg'', ''c'')], locked = [],
         converted = [],
         hashed = [Path ''x'' ''.jpg'', Path ''y'' ''.jpg'', Path ''z'' ''.jpg'']\<rparr>,
        CleanStats_init\<lparr>removed_dup_phash := 1\<rparr>,
        [(Path ''x'' ''.jpg'', 0), (Path ''z'' ''.jpg'', 127)],
        [Path ''x'' ''.jpg'', Path ''z'' ''.jpg''])"
  by (simp add: eval_defs w_abc_def)

text \<open>
  C3, amended. After any part \<open>ps\<close> of the scan, started with nothing accepted: any two
  accepted hashes are further apart than the threshold (6 in \<open>clean_breed_folder\<close>), so of a
  group of mutually near candidates at most one is kept; the accepted hashes are those of
  the kept files, in order; and the next candidate whose hash can be computed is removed,
  without its hash being added, exactly when an accepted hash is within the threshold of
  it, and is accepted otherwise. The kept one of a group is therefore its first member only
  when that member is not near a hash accepted before it.
\<close>

theorem near_dup_accepted_set_invariant:
  assumes "stage4 thr E ps w st [] [] = (w1, st1, seen1, final1)"
  shows "(\<forall>i<length seen1. \<forall>j<length seen1. i \<noteq> j \<longrightarrow>
            thr < hamming_distance (snd (seen1 ! i)) (snd (seen1 ! j)))
         \<and> map fst seen1 = final1
         \<and> (\<forall>p ph. perceptual_hash E (log_hash w1 p) p = Some ph \<longrightarrow>
               stage4 thr E (ps @ [p]) w st [] [] =
                 (if \<exists>e\<in>set seen1. hamming_distance (snd e) ph \<le> thr
                  then (try_remove (log_hash w1 p) p,
                        st1\<lparr>removed_dup_phash := removed_dup_phash st1 + 1\<rparr>, seen1, final1)
                  else (log_hash w1 p, st1, seen1 @ [(p, ph)], final1 @ [p])))"
proof -
  have inv: "far_apart thr seen1 \<and> map fst seen1 = final1"
    using stage4_invariant [OF assms] by simp
  have step: "\<forall>p ph. perceptual_hash E (log_hash w1 p) p = Some ph \<longrightarrow>
               stage4 thr E (ps @ [p]) w st [] [] =
                 (if \<exists>e\<in>set seen1. hamming_distance (snd e) ph \<le> thr
                  then (try_remove (log_hash w1 p) p,
                        st1\<lparr>removed_dup_phash := removed_dup_phash st1 + 1\<rparr>, seen1, final1)
                  else (log_hash w1 p, st1, seen1 @ [(p, ph)], final1 @ [p]))"
    using assms by (simp add: stage4_append Let_def is_dup_iff)
  from inv step far_apart_pairs [of thr seen1] show ?thesis by blast
qed


theorem near_dup_accepted_set_invariant_witness:
  "stage4 6 E_all [Path ''p'' ''.jpg'', Path ''q'' ''.jpg'', Path ''r'' ''.jpg''] w_abde
     CleanStats_init [] []
     = (\<lparr>files = [(Path ''p'' ''.jpg'', ''a''), (Path ''r'' ''.jpg'', ''d''),
                  (Path ''s'' ''.jpg'', ''e'')], locked = [], converted = [],
         hashed = [Path ''p'' ''.jpg'', Path ''q'' ''.jpg'', Path ''r'' ''.jpg'']\<rparr>,
        CleanStats_init\<lparr>removed_dup_phash := 1\<rparr>,
        [(Path ''p'' ''.jpg'', 0), (Path ''r'' ''.jpg'', 2047)],
        [Path ''p'' ''.jpg'', Path ''r'' ''.jpg''])
   \<and> 6 < hamming_distance 0 2047
   \<and> perceptual_hash E_all
        (log_hash \<lparr>files = [(Path ''p'' ''.jpg'', ''a''), (Path ''r'' ''.jpg'', ''d''),
                  (Path ''s'' ''.jpg'', ''e'')], locked = [], converted = [],
         hashed = [Path ''p'' ''.jpg'', Path ''q'' ''.jpg'', Path ''r'' ''.jpg'']\<rparr>
         (Path ''s'' ''.jpg'')) (Path ''s'' ''.jpg'') = Some 63551
   \<and> stage4 6 E_all ([Path ''p'' ''.jpg'', Path ''q'' ''.jpg'', Path ''r'' ''.jpg'']
         @ [Path ''s'' ''.jpg'']) w_abde CleanStats_init [] []
     = (\<lparr>files = [(Path ''p'' ''.jpg'', ''a''), (Path ''r'' ''.jpg'', ''d''),
                  (Path ''s'' ''.jpg'', ''e'')], locked = [], converted = [],
         hashed = [Path ''p'' ''.jpg'', Path ''q'' ''.jpg'', Path ''r'' ''.jpg'',
                   Path ''s'' ''.jpg'']\<rparr>,
        CleanStats_init\<lparr>removed_dup_phash := 1\<rparr>,
        [(Path ''p'' ''.jpg'', 0), (Path ''r'' ''.jpg'', 2047), (Path ''s'' ''.jpg'', 63551)],
        [Path ''p'' ''.jpg'', Path ''r'' ''.jpg'', Path ''s'' ''.jpg''])"
proof -
  let ?W = "\<lparr>files = [(Path ''p'' ''.jpg'', ''a''), (Path ''r'' ''.jpg'', ''d''),
                  (Path ''s'' ''.jpg'', ''e'')], locked = [], converted = [],
         hashed = [Path ''p'' ''.jpg'', Path ''q'' ''.jpg'', Path ''r'' ''.jpg'']\<rparr>"
  have e: "stage4 6 E_all [Path ''p'' ''.jpg'', Path ''q'' ''.jpg'', Path ''r'' ''.jpg''] w_abde
     CleanStats_init [] []
     = (?W, CleanStats_init\<lparr>removed_dup_phash := 1\<rparr>,
        [(Path ''p'' ''.jpg'', 0), (Path ''r'' ''.jpg'', 2047)],
        [Path ''p'' ''.jpg'', Path ''r'' ''.jpg''])"
    by (simp add: eval_defs w_abde_def)
  have ph: "perceptual_hash E_all (log_hash ?W (Path ''s'' ''.jpg'')) (Path ''s'' ''.jpg'')
      = Some 63551"
    by (simp add: eval_defs)
  note t = near_dup_accepted_set_invariant [OF e]
  from t [THEN conjunct1, rule_format, of 0 1]
  have far: "6 < hamming_distance 0 2047" by simp
  have cond: "\<not> (\<exists>e\<in>set [(Path ''p'' ''.jpg'', 0), (Path ''r'' ''.jpg'', 2047)].
                  hamming_distance (snd e) 63551 \<le> 6)"
    by (simp add: hamming_examples)
  have step: "stage4 6 E_all ([Path ''p'' ''.jpg'', Path ''q'' ''.jpg'', Path ''r'' ''.jpg'']
         @ [Path ''s'' ''.jpg'']) w_abde CleanStats_init [] []
     = (log_hash ?W (Path ''s'' ''.jpg''), CleanStats_init\<lparr>removed_dup_phash := 1\<rparr>,
        [(Path ''p'' ''.jpg'', 0), (Path ''r'' ''.jpg'', 2047)] @ [(Path ''s'' ''.jpg'', 63551)],
        [Path ''p'' ''.jpg'', Path ''r'' ''.jpg''] @ [Path ''s'' ''.jpg''])"
    using t [THEN conjunct2, THEN conjunct2, rule_format, OF ph] cond
    by (simp only: if_False)
  have lg: "log_hash ?W (Path ''s'' ''.jpg'') = \<lparr>files = [(Path ''p'' ''.jpg'', ''a''), (Path ''r'' ''.jpg'', ''d''),
                  (Path ''s'' ''.jpg'', ''e'')], locked = [], converted = [],
         hashed = [Path ''p'' ''.jpg'', Path ''q'' ''.jpg'', Path ''r'' ''.jpg'',
                   Path ''s'' ''.jpg'']\<rparr>"
    by (simp add: log_hash_def)
  have ap: "[(Path ''p'' ''.jpg'', 0), (Path ''r'' ''.jpg'', 2047)] @ [(Path ''s'' ''.jpg'', 63551)]
      = [(Path ''p'' ''.jpg'', 0), (Path ''r'' ''.jpg'', 2047), (Path ''s'' ''.jpg'', 63551 :: int)]"
    "[Path ''p'' ''.jpg'', Path ''r'' ''.jpg''] @ [Path ''s'' ''.jpg'']
      = [Path ''p'' ''.jpg'', Path ''r'' ''.jpg'', Path ''s'' ''.jpg'']"
    by simp_all
  from e far ph step [unfolded lg ap] show ?thesis by (intro conjI)
qed


subsection \<open>The perceptual hash\<close>

lemma shift_or_bit: "push_bit 1 (v :: int) OR of_bool b = 2 * v + of_bool b"
  by (cases b) (simp_all add: or_one_eq flip: mult_2)

lemma foldl_double_add:
  "foldl (\<lambda>v b. 2 * v + of_bool b) (v :: int) bs
     = v * 2 ^ length bs + horner_sum of_bool 2 (rev bs)"
proof (induction bs arbitrary: v)
  case Nil
  then show ?case by simp
next
  case (Cons b bs)
  have "foldl (\<lambda>v b. 2 * v + of_bool b) v (b # bs)
          = (2 * v + of_bool b) * 2 ^ length bs + horner_sum of_bool 2 (rev bs)"
    using Cons.IH [of "2 * v + of_bool b"] by simp
  also have "\<dots> = v * 2 ^ length (b # bs) + horner_sum of_bool 2 (rev (b # bs))"
    by (simp add: horner_sum_append algebra_simps)
  finally show ?case .
qed

lemma bits_to_int_horner: "bits_to_int bs = horner_sum of_bool 2 (rev bs)"
proof -
  have "(\<lambda>(v :: int) b. push_bit 1 v OR of_bool b) = (\<lambda>v b. 2 * v + of_bool b)"
    by (intro ext) (rule shift_or_bit)
  then show ?thesis
    unfolding bits_to_int_def using foldl_double_add [of 0 bs] by simp
qed

lemma bit_bits_to_int:
  "bit (bits_to_int bs) n \<longleftrightarrow> n < length bs \<and> bs ! (length bs - 1 - n)"
  by (auto simp: bits_to_int_horner bit_horner_sum_bit_iff rev_nth)

lemma bits_to_int_range: "0 \<le> bits_to_int bs \<and> bits_to_int bs < 2 ^ length bs"
  by (simp add: bits_to_int_horner horner_sum_nonnegative horner_sum_bound [where ?'a = int, of "rev bs", simplified])

lemma concat_rows:
  assumes "\<And>y. length (f y) = m"
  shows "length (concat (map f [0..<n])) = n * m
         \<and> (\<forall>y<n. \<forall>x<m. concat (map f [0..<n]) ! (y * m + x) = f y ! x)"
proof (induction n)
  case 0
  then show ?case by simp
next
  case (Suc n)
  have len: "length (concat (map f [0..<n])) = n * m" using Suc by simp
  show ?case
  proof (intro conjI allI impI)
    show "length (concat (map f [0..<Suc n])) = Suc n * m"
      using len assms by simp
  next
    fix y x assume y: "y < Suc n" and x: "x < m"
    show "concat (map f [0..<Suc n]) ! (y * m + x) = f y ! x"
    proof (cases "y < n")
      case True
      then have "y * m + x < n * m"
        using x by (metis add.commute less_Suc_eq_le mult_Suc mult_le_mono1 nat_add_left_cancel_less order_less_le_trans Suc_leI)
      with True x Suc len show ?thesis by (simp add: nth_append)
    next
      case False
      with y have "y = n" by simp
      with x len show ?thesis by (simp add: nth_append)
    qed
  qed
qed

lemma dhash_bits_nth:
  "length (dhash_bits px hs) = hs * hs
   \<and> (\<forall>y<hs. \<forall>x<hs. dhash_bits px hs ! (y * hs + x) = (px x y > px (x + 1) y))"
  using concat_rows [of "\<lambda>y. map (\<lambda>x. px x y > px (x + 1) y) [0..<hs]" hs hs]
  by (simp add: dhash_bits_def)


text \<open>
  C8, as stated, fails when imagehash is installed: the stage then takes
  \<^verbatim>\<open>imagehash.phash\<close> and never looks at the grey grid. In \<open>E_all\<close> the hash of
  \<open>x.jpg\<close> is the 0 that the library returns, although in the first row of the 17 by 16
  grid the first pixel is brighter than the second, which would set bit 255.
\<close>

theorem hash_is_not_dhash_with_imagehash_counterexample:
  "IMAGEHASH_OK E_all
   \<and> read_file w_abc (Path ''x'' ''.jpg'') = Some ''a''
   \<and> pil_gray_resize E_all ''a'' 17 16 = Some stripes
   \<and> stripes 0 0 > stripes 1 0
   \<and> perceptual_hash E_all w_abc (Path ''x'' ''.jpg'') = Some 0
   \<and> \<not> bit (0 :: int) 255"
  by (simp add: perceptual_hash_def E_all_def read_file_def w_abc_def folder_def stripes_def
      phash_table_def)

text \<open>
  C8, amended. When imagehash is not installed and Pillow is, the hash of a readable file is
  the 256-bit number whose bits, from the highest down, are the comparisons
  \<^verbatim>\<open>left > right\<close> of horizontally adjacent pixels of the grey image resized to 17
  columns and 16 rows, row by row: bit \<open>255 - (16 * y + x)\<close> is set exactly when the pixel
  in column \<open>x\<close> of row \<open>y\<close> is strictly brighter than the one in column \<open>x + 1\<close>.
\<close>

theorem dhash_of_gray_grid_without_imagehash:
  assumes "\<not> IMAGEHASH_OK E" and "PIL_OK E" and "read_file w p = Some b"
    and "pil_gray_resize E b 17 16 = Some px"
  shows "\<exists>v. perceptual_hash E w p = Some v \<and> 0 \<le> v \<and> v < 2 ^ 256
           \<and> (\<forall>x<16. \<forall>y<16. bit v (255 - (16 * y + x)) \<longleftrightarrow> px x y > px (x + 1) y)"
proof -
  let ?bs = "dhash_bits px 16"
  have ph: "perceptual_hash E w p = Some (bits_to_int ?bs)"
    using assms by (simp add: perceptual_hash_def simple_dhash_def)
  have len: "length ?bs = 256"
    using dhash_bits_nth [of px 16] by simp
  have rng: "0 \<le> bits_to_int ?bs \<and> bits_to_int ?bs < 2 ^ 256"
    using bits_to_int_range [of ?bs] len by simp
  have bits: "\<forall>x<16. \<forall>y<16. bit (bits_to_int ?bs) (255 - (16 * y + x)) \<longleftrightarrow> px x y > px (x + 1) y"
  proof (intro allI impI)
    fix x y :: nat assume x: "x < 16" and y: "y < 16"
    then have le: "16 * y + x \<le> 255" by simp
    have "bit (bits_to_int ?bs) (255 - (16 * y + x)) \<longleftrightarrow> ?bs ! (y * 16 + x)"
    proof -
      have "255 - (16 * y + x) < (256 :: nat)" by simp
      moreover have "256 - 1 - (255 - (16 * y + x)) = y * 16 + x" using le by simp
      ultimately show ?thesis by (simp only: bit_bits_to_int len simp_thms)
    qed
    also have "\<dots> \<longleftrightarrow> px x y > px (x + 1) y"
      using dhash_bits_nth [of px 16] x y by simp
    finally show "bit (bits_to_int ?bs) (255 - (16 * y + x)) \<longleftrightarrow> px x y > px (x + 1) y" .
  qed
  from ph rng bits show ?thesis by blast
qed

theorem dhash_of_gray_grid_without_imagehash_witness:
  "\<not> IMAGEHASH_OK E_no_imagehash \<and> PIL_OK E_no_imagehash
   \<and> read_file w_abc (Path ''x'' ''.jpg'') = Some ''a''
   \<and> pil_gray_resize E_no_imagehash ''a'' 17 16 = Some stripes
   \<and> (\<exists>v. perceptual_hash E_no_imagehash w_abc (Path ''x'' ''.jpg'') = Some v
          \<and> 0 \<le> v \<and> v < 2 ^ 256 \<and> bit v 255 \<and> \<not> bit v 254)"
proof -
  have h1: "\<not> IMAGEHASH_OK E_no_imagehash" and h2: "PIL_OK E_no_imagehash"
    by (simp_all add: E_no_imagehash_def E_all_def)
  have h3: "read_file w_abc (Path ''x'' ''.jpg'') = Some ''a''"
    by (simp add: read_file_def w_abc_def folder_def)
  have h4: "pil_gray_resize E_no_imagehash ''a'' 17 16 = Some stripes"
    by (simp add: E_no_imagehash_def E_all_def)
  from dhash_of_gray_grid_without_imagehash [OF h1 h2 h3 h4]
  obtain v where v: "perceptual_hash E_no_imagehash w_abc (Path ''x'' ''.jpg'') = Some v"
    "0 \<le> v" "v < 2 ^ 256"
    "\<forall>x<16. \<forall>y<16. bit v (255 - (16 * y + x)) \<longleftrightarrow> stripes x y > stripes (x + 1) y"
    by blast
  from v(4) [rule_format, of 0 0] have b255: "bit v 255" by (simp add: stripes_def)
  from v(4) [rule_format, of 1 0] have b254: "\<not> bit v 254" by (simp add: stripes_def)
  from h1 h2 h3 h4 v(1,2,3) b255 b254 show ?thesis by blast
qed

subsection \<open>The exact-duplicate stage\<close>

lemma files_try_remove:
  "files (try_remove w p) = filter (\<lambda>e. fst e \<noteq> p \<or> p \<in> set (locked w)) (files w)"
proof (cases "path_exists w p")
  case True
  then show ?thesis by (auto simp: try_remove_def os_remove_def intro: filter_cong)
next
  case False
  then have "p \<notin> fst ` set (files w)"
    by (simp add: path_exists_def read_file_def map_of_eq_None_iff)
  then have "filter (\<lambda>e. fst e \<noteq> p \<or> p \<in> set (locked w)) (files w) = files w"
    by (auto simp: filter_id_conv)
  with False show ?thesis by (simp add: try_remove_def os_remove_def)
qed


lemma keep_first_cong:
  "(\<forall>q\<in>set ps. d q = d' q) \<Longrightarrow> keep_first d S ps = keep_first d' S ps"
  by (induction ps arbitrary: S) (auto split: option.splits)













subsection \<open>A folder that is already clean\<close>

lemma listed_exists: "p \<in> set (list_images w) \<Longrightarrow> path_exists w p"
  by (auto simp: list_images_def glob_ext_def path_exists_def read_file_def map_of_eq_None_iff)

lemma lower_jpg: "lower ''.jpg'' = ''.jpg''"
  by (simp add: lower_def lower_char_def)














subsection \<open>The accounting of the statistics\<close>

lemma stage2_count:
  "stage2 E cf ps w st acc = (w', st', acc') \<Longrightarrow>
     int (length acc') + removed_total st' = int (length acc) + int (length ps) + removed_total st"
proof (induction ps arbitrary: w st acc)
  case Nil
  then show ?case by simp
next
  case (Cons p ps)
  show ?case
  proof (cases "is_cat E cf w p")
    case True
    with Cons.prems have "stage2 E cf ps w st (acc @ [p]) = (w', st', acc')" by simp
    from Cons.IH [OF this] show ?thesis by simp
  next
    case False
    with Cons.prems have "stage2 E cf ps (try_remove w p)
        (st\<lparr>removed_notcat := removed_notcat st + 1\<rparr>) acc = (w', st', acc')" by simp
    from Cons.IH [OF this] show ?thesis by (simp add: removed_total_def)
  qed
qed

lemma stage3_count:
  "stage3 E ps w st seen acc = (w', st', seen', acc') \<Longrightarrow>
     int (length acc') + removed_total st' = int (length acc) + int (length ps) + removed_total st"
proof (induction ps arbitrary: w st seen acc)
  case Nil
  then show ?case by simp
next
  case (Cons p ps)
  show ?case
  proof (cases "file_md5 E w p")
    case None
    with Cons.prems have "stage3 E ps (try_remove w p)
        (st\<lparr>removed_broken := removed_broken st + 1\<rparr>) seen acc = (w', st', seen', acc')"
      by simp
    from Cons.IH [OF this] show ?thesis by (simp add: removed_total_def)
  next
    case (Some h)
    show ?thesis
    proof (cases "seen h")
      case None
      with Some Cons.prems
      have "stage3 E ps w st (seen(h \<mapsto> p)) (acc @ [p]) = (w', st', seen', acc')" by simp
      from Cons.IH [OF this] show ?thesis by simp
    next
      case (Some q)
      with \<open>file_md5 E w p = Some h\<close> Cons.prems have "stage3 E ps (try_remove w p)
          (st\<lparr>removed_dup_md5 := removed_dup_md5 st + 1\<rparr>) seen acc = (w', st', seen', acc')"
        by simp
      from Cons.IH [OF this] show ?thesis by (simp add: removed_total_def)
    qed
  qed
qed

lemma stage4_count:
  "stage4 thr E ps w st seen acc = (w', st', seen', acc') \<Longrightarrow>
     int (length acc') + removed_total st' = int (length acc) + int (length ps) + removed_total st"
proof (induction ps arbitrary: w st seen acc)
  case Nil
  then show ?case by simp
next
  case (Cons p ps)
  let ?w1 = "log_hash w p"
  show ?case
  proof (cases "perceptual_hash E ?w1 p")
    case None
    with Cons.prems have "stage4 thr E ps (try_remove ?w1 p)
        (st\<lparr>removed_broken := removed_broken st + 1\<rparr>) seen acc = (w', st', seen', acc')"
      by (simp add: Let_def)
    from Cons.IH [OF this] show ?thesis by (simp add: removed_total_def)
  next
    case (Some ph)
    show ?thesis
    proof (cases "is_dup thr seen ph")
      case True
      with Some Cons.prems have "stage4 thr E ps (try_remove ?w1 p)
          (st\<lparr>removed_dup_phash := removed_dup_phash st + 1\<rparr>) seen acc = (w', st', seen', acc')"
        by (simp add: Let_def)
      from Cons.IH [OF this] show ?thesis by (simp add: removed_total_def)
    next
      case False
      with Some Cons.prems
      have "stage4 thr E ps ?w1 st (seen @ [(p, ph)]) (acc @ [p]) = (w', st', seen', acc')"
        by (simp add: Let_def)
      from Cons.IH [OF this] show ?thesis by simp
    qed
  qed
qed

lemma convert_step_count:
  "convert_step E ki p w st = (w1, st1, r) \<Longrightarrow>
     removed_total st1 + (case r of None \<Rightarrow> 0 | Some q \<Rightarrow> 1) = removed_total st + 1"
  by (auto simp: convert_step_def Let_def removed_total_def split: if_splits prod.splits bool.splits)

lemma stage1_file_count:
  assumes "stage1_file E ms jo ki p w st = Inr (w1, st1, r)"
  shows "removed_total st1 + (case r of None \<Rightarrow> 0 | Some q \<Rightarrow> 1) \<le> removed_total st + 1"
    and "path_exists w p \<Longrightarrow> p \<notin> set (locked w) \<Longrightarrow>
           removed_total st1 + (case r of None \<Rightarrow> 0 | Some q \<Rightarrow> 1) = removed_total st + 1"
  using assms
  by (auto simp: stage1_file_def removed_total_def os_remove_def
      split: if_splits prod.splits option.splits dest!: convert_step_count)


lemma read_file_os_remove:
  "os_remove w p = Some w1 \<Longrightarrow> q \<noteq> p \<Longrightarrow> read_file w1 q = read_file w q"
  by (auto simp: os_remove_def read_file_def map_of_filter_other split: if_splits)

lemma path_exists_try_remove:
  "q \<noteq> p \<Longrightarrow> path_exists (try_remove w p) q = path_exists w q"
  by (simp add: path_exists_def read_file_try_remove)

lemma path_exists_convert:
  "exif_normalize_and_convert_jpg E w p out = (ok, w1) \<Longrightarrow> path_exists w q \<Longrightarrow> path_exists w1 q"
  by (auto simp: exif_normalize_and_convert_jpg_def log_convert_def write_file_def Let_def
      path_exists_def read_file_def update_conv' split: if_splits option.splits)

lemma convert_step_others:
  "convert_step E ki p w st = (w1, st1, r) \<Longrightarrow> q \<noteq> p \<Longrightarrow> path_exists w q \<Longrightarrow> path_exists w1 q"
  by (auto simp: convert_step_def Let_def path_exists_try_remove
      split: if_splits prod.splits bool.splits dest: path_exists_convert)

lemma stage1_file_others:
  "stage1_file E ms jo ki p w st = Inr (w1, st1, r) \<Longrightarrow> q \<noteq> p \<Longrightarrow> path_exists w q
     \<Longrightarrow> path_exists w1 q"
  by (auto simp: stage1_file_def path_exists_def
      split: if_splits prod.splits option.splits
      dest: convert_step_others [unfolded path_exists_def] read_file_os_remove)

lemma stage1_count:
  assumes "stage1 E ms jo ki ps w st kept = Inr (w', st', kept')"
  shows "int (length kept') + removed_total st' \<le> int (length kept) + int (length ps) + removed_total st"
  using assms
proof (induction ps arbitrary: w st kept)
  case Nil
  then show ?case by simp
next
  case (Cons p ps)
  from Cons.prems obtain w1 st1 r where
    f: "stage1_file E ms jo ki p w st = Inr (w1, st1, r)"
    by (cases "stage1_file E ms jo ki p w st") auto
  note c = stage1_file_count(1) [OF f]
  show ?case
  proof (cases r)
    case None
    with f Cons.prems have "stage1 E ms jo ki ps w1 st1 kept = Inr (w', st', kept')" by simp
    from Cons.IH [OF this] c None show ?thesis by simp
  next
    case (Some q)
    with f Cons.prems have "stage1 E ms jo ki ps w1 st1 (kept @ [q]) = Inr (w', st', kept')" by simp
    from Cons.IH [OF this] c Some show ?thesis by simp
  qed
qed

lemma stage1_count_eq:
  assumes "stage1 E ms jo ki ps w st kept = Inr (w', st', kept')"
    and "distinct ps" and "\<forall>p\<in>set ps. path_exists w p \<and> p \<notin> set (locked w)"
  shows "int (length kept') + removed_total st' = int (length kept) + int (length ps) + removed_total st"
  using assms
proof (induction ps arbitrary: w st kept)
  case Nil
  then show ?case by simp
next
  case (Cons p ps)
  from Cons.prems(1) obtain w1 st1 r where
    f: "stage1_file E ms jo ki p w st = Inr (w1, st1, r)"
    by (cases "stage1_file E ms jo ki p w st") auto
  have c: "removed_total st1 + (case r of None \<Rightarrow> 0 | Some q \<Rightarrow> 1) = removed_total st + 1"
    using stage1_file_count(2) [OF f] Cons.prems(3) by simp
  have d: "distinct ps" and pn: "p \<notin> set ps" using Cons.prems(2) by simp_all
  have inv: "\<forall>q\<in>set ps. path_exists w1 q \<and> q \<notin> set (locked w1)"
  proof
    fix q assume q: "q \<in> set ps"
    with pn have "q \<noteq> p" by blast
    with q Cons.prems(3) stage1_file_others [OF f] stage1_file_frame [OF f]
    show "path_exists w1 q \<and> q \<notin> set (locked w1)" by simp
  qed
  show ?case
  proof (cases r)
    case None
    with f Cons.prems(1) have "stage1 E ms jo ki ps w1 st1 kept = Inr (w', st', kept')" by simp
    from Cons.IH [OF this d inv] c None show ?thesis by simp
  next
    case (Some q)
    with f Cons.prems(1) have "stage1 E ms jo ki ps w1 st1 (kept @ [q]) = Inr (w', st', kept')"
      by simp
    from Cons.IH [OF this d inv] c Some show ?thesis by simp
  qed
qed

lemma distinct_list_images:
  "distinct (map fst (files w)) \<Longrightarrow> distinct (list_images w)"
  by (auto simp: list_images_def exts_def glob_ext_def)

lemma stage4_before:
  "stage4 thr E ps w st seen acc = (w', st', seen', acc') \<Longrightarrow> before_n st' = before_n st"
proof (induction ps arbitrary: w st seen acc)
  case Nil
  then show ?case by simp
next
  case (Cons p ps)
  let ?w1 = "log_hash w p"
  show ?case
  proof (cases "perceptual_hash E ?w1 p")
    case None
    with Cons.prems have "stage4 thr E ps (try_remove ?w1 p)
        (st\<lparr>removed_broken := removed_broken st + 1\<rparr>) seen acc = (w', st', seen', acc')"
      by (simp add: Let_def)
    from Cons.IH [OF this] show ?thesis by simp
  next
    case (Some ph)
    show ?thesis
    proof (cases "is_dup thr seen ph")
      case True
      with Some Cons.prems have "stage4 thr E ps (try_remove ?w1 p)
          (st\<lparr>removed_dup_phash := removed_dup_phash st + 1\<rparr>) seen acc = (w', st', seen', acc')"
        by (simp add: Let_def)
      from Cons.IH [OF this] show ?thesis by simp
    next
      case False
      with Some Cons.prems
      have "stage4 thr E ps ?w1 st (seen @ [(p, ph)]) (acc @ [p]) = (w', st', seen', acc')"
        by (simp add: Let_def)
      from Cons.IH [OF this] show ?thesis by simp
    qed
  qed
qed

lemma after_stage1:
  assumes "clean_breed_folder E cf c w = Inr (st, w')"
  shows "\<exists>w1 st1 kept. stage1 E (min_side c) (jpg_only c) (keep_intermediate c) (list_images w) w
            (CleanStats_init\<lparr>before_n := int (length (list_images w))\<rparr>) [] = Inr (w1, st1, kept)
          \<and> before_n st = int (length (list_images w))
          \<and> after_n st + removed_total st = int (length kept) + removed_total st1"
proof -
  let ?st0 = "CleanStats_init\<lparr>before_n := int (length (list_images w))\<rparr>"
  from assms obtain w1 st1 kept where
    s1: "stage1 E (min_side c) (jpg_only c) (keep_intermediate c) (list_images w) w ?st0 []
           = Inr (w1, st1, kept)"
    by (cases "stage1 E (min_side c) (jpg_only c) (keep_intermediate c) (list_images w) w ?st0 []")
       (auto simp: clean_breed_folder_def Let_def)
  obtain w2 st2 filtered where s2: "stage2 E cf kept w1 st1 [] = (w2, st2, filtered)"
    by (cases "stage2 E cf kept w1 st1 []") auto
  obtain w3 st3 seen md5f where s3: "stage3 E filtered w2 st2 Map.empty [] = (w3, st3, seen, md5f)"
    by (cases "stage3 E filtered w2 st2 Map.empty []") auto
  obtain w4 st4 seen4 final where s4: "stage4 6 E md5f w3 st3 [] [] = (w4, st4, seen4, final)"
    by (cases "stage4 6 E md5f w3 st3 [] []") auto
  have b1: "before_n st1 = int (length (list_images w))"
    using stage1_frame [OF s1] by simp
  have b3: "before_n st3 = before_n st1"
    using stage2_frame [OF s2] stage3_frame [OF s3] by simp
  have c3: "int (length md5f) + removed_total st3 = int (length kept) + removed_total st1"
    using stage2_count [OF s2] stage3_count [OF s3] by simp
  show ?thesis
  proof (cases "remove_near_dup c \<and> (PIL_OK E \<or> IMAGEHASH_OK E)")
    case True
    then have g: "(remove_near_dup c \<and> (PIL_OK E \<or> IMAGEHASH_OK E)) = True" by simp
    have st: "st = st4\<lparr>after_n := int (length final)\<rparr>"
      using assms unfolding clean_breed_folder_def Let_def g by (simp add: s1 s2 s3 s4)
    have "before_n st4 = before_n st3"
      by (rule stage4_before [OF s4])
    with st s1 b1 b3 c3 stage4_count [OF s4] show ?thesis
      by (auto simp: removed_total_def)
  next
    case False
    then have g: "(remove_near_dup c \<and> (PIL_OK E \<or> IMAGEHASH_OK E)) = False" by simp
    have st: "st = st3\<lparr>after_n := int (length md5f)\<rparr>"
      using assms unfolding clean_breed_folder_def Let_def g by (simp add: s1 s2 s3)
    with s1 b1 b3 c3 show ?thesis
      by (auto simp: removed_total_def)
  qed
qed


text \<open>
  What does hold of the statistics: they never account for more files than were found, and
  they account for every file when the folder has no two entries of one name and no listed
  file is locked, so that no delete of the first loop fails.
\<close>

lemma accounting_at_most:
  assumes "clean_breed_folder E cf c w = Inr (st, w')"
  shows "after_n st + removed_total st \<le> before_n st"
proof -
  from after_stage1 [OF assms] obtain w1 st1 kept where
    s1: "stage1 E (min_side c) (jpg_only c) (keep_intermediate c) (list_images w) w
            (CleanStats_init\<lparr>before_n := int (length (list_images w))\<rparr>) [] = Inr (w1, st1, kept)"
    and b: "before_n st = int (length (list_images w))"
    and a: "after_n st + removed_total st = int (length kept) + removed_total st1"
    by blast
  from stage1_count [OF s1] a b show ?thesis
    by (simp add: removed_total_def CleanStats_init_def)
qed

lemma accounting_when_deletes_succeed:
  assumes "clean_breed_folder E cf c w = Inr (st, w')"
    and "distinct (map fst (files w))"
    and "\<forall>p\<in>set (list_images w). p \<notin> set (locked w)"
  shows "before_n st = after_n st + removed_total st"
proof -
  from after_stage1 [OF assms(1)] obtain w1 st1 kept where
    s1: "stage1 E (min_side c) (jpg_only c) (keep_intermediate c) (list_images w) w
            (CleanStats_init\<lparr>before_n := int (length (list_images w))\<rparr>) [] = Inr (w1, st1, kept)"
    and b: "before_n st = int (length (list_images w))"
    and a: "after_n st + removed_total st = int (length kept) + removed_total st1"
    by blast
  have "\<forall>p\<in>set (list_images w). path_exists w p \<and> p \<notin> set (locked w)"
    using assms(3) listed_exists by blast
  from stage1_count_eq [OF s1 distinct_list_images [OF assms(2)] this] a b show ?thesis
    by (simp add: removed_total_def CleanStats_init_def)
qed


text \<open>
  C1 fails on the code when a delete fails in the first loop: there the counter is
  incremented inside the \<^verbatim>\<open>try\<close>, after \<^verbatim>\<open>os.remove\<close>, so a file that cannot be
  deleted is neither kept nor counted. \<open>w_locked\<close> holds one file that Pillow cannot read
  and that cannot be deleted: the run returns \<open>before = 1\<close>, \<open>after = 0\<close> and every
  \<open>removed_*\<close> counter 0.
\<close>

theorem failed_delete_is_not_counted:
  "clean_breed_folder E_all (CatFilter_init E_all (1/5) True) c_plain w_locked
     = Inr (\<lparr>before_n = 1, removed_small = 0, removed_broken = 0, removed_notcat = 0,
              removed_dup_md5 = 0, removed_dup_phash = 0, after_n = 0\<rparr>, w_locked)
   \<and> before_n \<lparr>before_n = 1, removed_small = 0, removed_broken = 0, removed_notcat = 0,
              removed_dup_md5 = 0, removed_dup_phash = 0, after_n = 0\<rparr>
       \<noteq> after_n \<lparr>before_n = 1, removed_small = 0, removed_broken = 0, removed_notcat = 0,
              removed_dup_md5 = 0, removed_dup_phash = 0, after_n = 0\<rparr>
         + removed_total \<lparr>before_n = 1, removed_small = 0, removed_broken = 0, removed_notcat = 0,
              removed_dup_md5 = 0, removed_dup_phash = 0, after_n = 0\<rparr>"
proof -
  have "clean_breed_folder E_all (CatFilter_init E_all (1/5) True) c_plain w_locked
     = Inr (\<lparr>before_n = 1, removed_small = 0, removed_broken = 0, removed_notcat = 0,
              removed_dup_md5 = 0, removed_dup_phash = 0, after_n = 0\<rparr>, w_locked)"
    by code_simp
  then show ?thesis by (simp add: removed_total_def)
qed

subsection \<open>A second run\<close>

lemma set_list_images:
  "set (list_images w) = {p \<in> fst ` set (files w). ext p \<in> set exts \<and> \<not> hidden p}"
  by (auto simp: list_images_def glob_ext_def)

lemma keys_try_remove:
  "fst ` set (files (try_remove w p))
     = (if p \<in> set (locked w) then fst ` set (files w) else fst ` set (files w) - {p})"
  by (auto simp: files_try_remove)

lemma listed_try_remove:
  "p \<notin> set (locked w) \<Longrightarrow> set (list_images (try_remove w p)) = set (list_images w) - {p}"
  by (auto simp: set_list_images keys_try_remove)

lemma listed_os_remove:
  "os_remove w p = Some w1 \<Longrightarrow> set (list_images w1) = set (list_images w) - {p}"
  by (auto simp: set_list_images os_remove_def split: if_splits)

lemma keys_write_file:
  "fst ` set (files (write_file w out j)) = insert out (fst ` set (files w))"
  using dom_update [of out j "files w"] by (simp add: write_file_def dom_map_of_conv_image_fst)

lemma distinct_keys_try_remove:
  "distinct (map fst (files w)) \<Longrightarrow> distinct (map fst (files (try_remove w p)))"
  by (simp add: files_try_remove distinct_map_filter)

lemma distinct_keys_write_file:
  "distinct (map fst (files w)) \<Longrightarrow> distinct (map fst (files (write_file w out j)))"
  by (simp add: write_file_def distinct_update)

lemma read_file_write_file:
  "read_file (write_file w out j) q = (if q = out then Some j else read_file w q)"
  by (simp add: read_file_def write_file_def update_conv')

lemma read_file_log [simp]:
  "read_file (log_convert w p out) q = read_file w q" "read_file (log_hash w p) q = read_file w q"
  by (simp_all add: read_file_def log_convert_def log_hash_def)

lemma passes_stage1_cong:
  "read_file w1 p = read_file w p \<Longrightarrow> passes_stage1 E c w1 p = passes_stage1 E c w p"
  by (simp add: passes_stage1_def ensure_pillow_image_def cv2_read_size_def)

lemma predict_cong:
  assumes "read_file w1 p = read_file w p"
  shows "predict E cf w1 p = predict E cf w p"
  unfolding predict_def assms ..

lemma is_cat_cong:
  assumes "read_file w1 p = read_file w p"
  shows "is_cat E cf w1 p = is_cat E cf w p"
  unfolding is_cat_def predict_cong [OF assms] ..

lemma file_md5_cong:
  "read_file w1 p = read_file w p \<Longrightarrow> file_md5 E w1 p = file_md5 E w p"
  by (simp add: file_md5_def)

lemma perceptual_hash_cong:
  "read_file w1 p = read_file w p \<Longrightarrow> perceptual_hash E w1 p = perceptual_hash E w p"
  by (simp add: perceptual_hash_def simple_dhash_def)


lemma stage2_spec:
  assumes "distinct ps" and "\<forall>q\<in>set ps. is_cat E cf w q = k q"
    and "stage2 E cf ps w st acc = (w', st', acc')"
  shows "acc' = acc @ filter k ps
    \<and> files w' = filter (\<lambda>e. fst e \<in> set (filter k ps) \<or> fst e \<notin> set ps
                           \<or> fst e \<in> set (locked w)) (files w)"
  using assms
proof (induction ps arbitrary: w st acc)
  case Nil
  then show ?case by simp
next
  case (Cons p ps)
  have kp: "is_cat E cf w p = k p" using Cons.prems(2) by simp
  have dist: "distinct ps" and pn: "p \<notin> set ps" using Cons.prems(1) by simp_all
  have k0: "\<forall>q\<in>set ps. is_cat E cf w q = k q" using Cons.prems(2) by simp
  have k1: "\<forall>q\<in>set ps. is_cat E cf (try_remove w p) q = k q"
  proof
    fix q assume q: "q \<in> set ps"
    with pn have "q \<noteq> p" by blast
    then have "read_file (try_remove w p) q = read_file w q" by (rule read_file_try_remove)
    from is_cat_cong [OF this] q k0 show "is_cat E cf (try_remove w p) q = k q" by simp
  qed
  show ?case
  proof (cases "k p")
    case True
    with kp Cons.prems(3) have s: "stage2 E cf ps w st (acc @ [p]) = (w', st', acc')" by simp
    from Cons.IH [OF dist k0 s] True pn show ?thesis
      by (auto intro!: filter_cong)
  next
    case False
    with kp Cons.prems(3) have s: "stage2 E cf ps (try_remove w p)
        (st\<lparr>removed_notcat := removed_notcat st + 1\<rparr>) acc = (w', st', acc')" by simp
    from Cons.IH [OF dist k1 s] False pn show ?thesis
      by (auto simp: files_try_remove intro!: filter_cong)
  qed
qed

lemma stage4_spec:
  assumes "distinct ps" and "\<forall>q\<in>set ps. perceptual_hash E w q = H q"
    and "stage4 thr E ps w st seen acc = (w', st', seen', acc')"
  shows "\<exists>new. acc' = acc @ new \<and> seen' = seen @ map (\<lambda>p. (p, the (H p))) new
    \<and> set new \<subseteq> set ps \<and> distinct new \<and> (\<forall>p\<in>set new. H p \<noteq> None)
    \<and> files w' = filter (\<lambda>e. fst e \<in> set new \<or> fst e \<notin> set ps
                           \<or> fst e \<in> set (locked w)) (files w)"
  using assms
proof (induction ps arbitrary: w st seen acc)
  case Nil
  then show ?case by simp
next
  case (Cons p ps)
  let ?w1 = "log_hash w p"
  have fl: "files ?w1 = files w" "locked ?w1 = locked w" by (simp_all add: log_hash_def)
  have hp: "perceptual_hash E ?w1 p = H p"
    using perceptual_hash_cong [of ?w1 p w E] Cons.prems(2) by simp
  have dist: "distinct ps" and pn: "p \<notin> set ps" using Cons.prems(1) by simp_all
  have h0: "\<forall>q\<in>set ps. perceptual_hash E ?w1 q = H q"
  proof
    fix q assume q: "q \<in> set ps"
    with perceptual_hash_cong [of ?w1 q w E] Cons.prems(2)
    show "perceptual_hash E ?w1 q = H q" by simp
  qed
  have h1: "\<forall>q\<in>set ps. perceptual_hash E (try_remove ?w1 p) q = H q"
  proof
    fix q assume q: "q \<in> set ps"
    with pn have "q \<noteq> p" by blast
    then have "read_file (try_remove ?w1 p) q = read_file ?w1 q" by (rule read_file_try_remove)
    from perceptual_hash_cong [OF this] q h0 show "perceptual_hash E (try_remove ?w1 p) q = H q"
      by simp
  qed
  have rm: "files (try_remove ?w1 p)
      = filter (\<lambda>e. fst e \<noteq> p \<or> p \<in> set (locked w)) (files w)"
    "locked (try_remove ?w1 p) = locked w"
    by (simp_all add: files_try_remove fl)
  show ?case
  proof (cases "H p")
    case None
    with hp Cons.prems(3) have s: "stage4 thr E ps (try_remove ?w1 p)
        (st\<lparr>removed_broken := removed_broken st + 1\<rparr>) seen acc = (w', st', seen', acc')"
      by (simp add: Let_def)
    from Cons.IH [OF dist h1 s] obtain new where n: "acc' = acc @ new"
      "seen' = seen @ map (\<lambda>p. (p, the (H p))) new" "set new \<subseteq> set ps" "distinct new"
      "\<forall>p\<in>set new. H p \<noteq> None"
      "files w' = filter (\<lambda>e. fst e \<in> set new \<or> fst e \<notin> set ps
                           \<or> fst e \<in> set (locked (try_remove ?w1 p))) (files (try_remove ?w1 p))"
      by blast
    have "files w' = filter (\<lambda>e. fst e \<in> set new \<or> fst e \<notin> set (p # ps)
                           \<or> fst e \<in> set (locked w)) (files w)"
      unfolding n(6) rm using n(3) pn by (auto intro!: filter_cong)
    with n(1-5) show ?thesis by auto
  next
    case (Some ph)
    show ?thesis
    proof (cases "is_dup thr seen ph")
      case True
      with Some hp Cons.prems(3) have s: "stage4 thr E ps (try_remove ?w1 p)
          (st\<lparr>removed_dup_phash := removed_dup_phash st + 1\<rparr>) seen acc = (w', st', seen', acc')"
        by (simp add: Let_def)
      from Cons.IH [OF dist h1 s] obtain new where n: "acc' = acc @ new"
        "seen' = seen @ map (\<lambda>p. (p, the (H p))) new" "set new \<subseteq> set ps" "distinct new"
        "\<forall>p\<in>set new. H p \<noteq> None"
        "files w' = filter (\<lambda>e. fst e \<in> set new \<or> fst e \<notin> set ps
                           \<or> fst e \<in> set (locked (try_remove ?w1 p))) (files (try_remove ?w1 p))"
        by blast
      have "files w' = filter (\<lambda>e. fst e \<in> set new \<or> fst e \<notin> set (p # ps)
                           \<or> fst e \<in> set (locked w)) (files w)"
        unfolding n(6) rm using n(3) pn by (auto intro!: filter_cong)
      with n(1-5) show ?thesis by auto
    next
      case False
      with Some hp Cons.prems(3)
      have s: "stage4 thr E ps ?w1 st (seen @ [(p, ph)]) (acc @ [p]) = (w', st', seen', acc')"
        by (simp add: Let_def)
      from Cons.IH [OF dist h0 s] obtain new where n: "acc' = (acc @ [p]) @ new"
        "seen' = (seen @ [(p, ph)]) @ map (\<lambda>p. (p, the (H p))) new" "set new \<subseteq> set ps"
        "distinct new" "\<forall>p\<in>set new. H p \<noteq> None"
        "files w' = filter (\<lambda>e. fst e \<in> set new \<or> fst e \<notin> set ps
                           \<or> fst e \<in> set (locked ?w1)) (files ?w1)"
        by blast
      have f: "files w' = filter (\<lambda>e. fst e \<in> set (p # new) \<or> fst e \<notin> set (p # ps)
                           \<or> fst e \<in> set (locked w)) (files w)"
        unfolding n(6) fl using pn by (auto intro!: filter_cong)
      have "acc' = acc @ (p # new) \<and> seen' = seen @ map (\<lambda>p. (p, the (H p))) (p # new)
          \<and> set (p # new) \<subseteq> set (p # ps) \<and> distinct (p # new) \<and> (\<forall>q\<in>set (p # new). H q \<noteq> None)"
        using n(1-5) Some pn by auto
      with f show ?thesis by blast
    qed
  qed
qed


lemma passes_stage1_iff:
  "read_file w p = Some b \<Longrightarrow>
     passes_stage1 E c w p \<longleftrightarrow>
       (PIL_OK E \<longrightarrow> pil_open_load E b = Pil_loaded) \<and> size_ok E c b
       \<and> (jpg_only c \<and> PIL_OK E \<longrightarrow> ext p = ''.jpg'')"
  by (auto simp: passes_stage1_def ensure_pillow_image_def cv2_read_size_def size_ok_def
      split: option.splits prod.splits)

lemma os_remove_try_remove:
  "path_exists w p \<Longrightarrow> p \<notin> set (locked w) \<Longrightarrow> os_remove w p = Some (try_remove w p)"
  by (simp add: try_remove_def os_remove_def)

lemma stage1_file_cases:
  assumes f: "stage1_file E (min_side c) (jpg_only c) (keep_intermediate c) p w st = Inr (w1, st1, r)"
    and rb: "read_file w p = Some b" and lk: "p \<notin> set (locked w)"
    and ki: "jpg_only c \<longrightarrow> \<not> keep_intermediate c"
  shows "(r = None \<and> (\<exists>wl. files wl = files w \<and> locked wl = locked w \<and> w1 = try_remove wl p))
       \<or> (r = Some p \<and> w1 = w \<and> (PIL_OK E \<longrightarrow> pil_open_load E b = Pil_loaded) \<and> size_ok E c b
            \<and> (jpg_only c \<and> PIL_OK E \<longrightarrow>
                 lower (ext p) \<in> set [''.jpg'', ''.jpeg''] \<and> path_exists w (Path (stem p) ''.jpg'')))
       \<or> (r = Some (Path (stem p) ''.jpg'') \<and> PIL_OK E \<and> pil_open_load E b = Pil_loaded
            \<and> size_ok E c b
            \<and> \<not> (lower (ext p) \<in> set [''.jpg'', ''.jpeg''] \<and> path_exists w (Path (stem p) ''.jpg''))
            \<and> (\<exists>j wl. files wl = files w \<and> locked wl = locked w \<and> pil_save_jpeg E b = Some j
                  \<and> w1 = try_remove (write_file wl (Path (stem p) ''.jpg'') j) p))"
proof -
  have ex: "path_exists w p" using rb by (simp add: path_exists_def)
  have rm: "os_remove w p = Some (try_remove w p)" by (rule os_remove_try_remove [OF ex lk])
  have en: "ensure_pillow_image E w p = (if PIL_OK E then pil_open_load E b else Pil_unreadable)"
    using rb by (simp add: ensure_pillow_image_def)
  obtain wd h where cv: "cv2_read_size E w p = (wd, h)" by (cases "cv2_read_size E w p") auto
  have szc: "(wd = 0 \<or> h = 0 \<or> min wd h < min_side c) = (\<not> size_ok E c b)"
    using rb cv by (auto simp: cv2_read_size_def size_ok_def split: option.splits prod.splits)
  have sf: "stage1_file E (min_side c) (jpg_only c) (keep_intermediate c) p w st =
     (if PIL_OK E \<and> (if PIL_OK E then pil_open_load E b else Pil_unreadable) = Pil_raised
      then Inl Uncaught_exception
      else if PIL_OK E \<and> (if PIL_OK E then pil_open_load E b else Pil_unreadable) = Pil_unreadable
      then Inr (try_remove w p, st\<lparr>removed_broken := removed_broken st + 1\<rparr>, None)
      else if \<not> size_ok E c b
           then Inr (try_remove w p, st\<lparr>removed_small := removed_small st + 1\<rparr>, None)
           else if jpg_only c \<and> PIL_OK E
                then Inr (convert_step E (keep_intermediate c) p w st)
                else Inr (w, st, Some p))"
    unfolding stage1_file_def en rm cv prod.case szc option.case ..
  show ?thesis
  proof (cases "PIL_OK E \<and> pil_open_load E b \<noteq> Pil_loaded")
    case True
    with f have "r = None \<and> w1 = try_remove w p"
      unfolding sf by (cases "pil_open_load E b") (auto split: if_splits)
    then show ?thesis by blast
  next
    case ld: False
    show ?thesis
    proof (cases "size_ok E c b")
      case False
      with f ld have "r = None \<and> w1 = try_remove w p"
        unfolding sf by (auto split: if_splits)
      then show ?thesis by blast
    next
      case so: True
      show ?thesis
      proof (cases "jpg_only c \<and> PIL_OK E")
        case False
        with f ld so have "r = Some p \<and> w1 = w"
          unfolding sf by (auto split: if_splits)
        with ld so False show ?thesis by blast
      next
        case jo: True
        with f ld so
        have cs: "convert_step E (keep_intermediate c) p w st = (w1, st1, r)"
          unfolding sf by (auto split: if_splits)
        let ?out = "Path (stem p) ''.jpg''"
        show ?thesis
        proof (cases "lower (ext p) \<in> set [''.jpg'', ''.jpeg''] \<and> path_exists w ?out")
          case True
          with cs have "r = Some p \<and> w1 = w" by (auto simp: convert_step_def)
          with ld so jo True show ?thesis by blast
        next
          case nc: False
          let ?wl = "log_convert w p ?out"
          have wl: "files ?wl = files w" "locked ?wl = locked w" by (simp_all add: log_convert_def)
          have cv2: "convert_step E (keep_intermediate c) p w st =
             (case exif_normalize_and_convert_jpg E w p ?out of
                (True, w1) \<Rightarrow> ((if \<not> keep_intermediate c then try_remove w1 p else w1), st, Some ?out)
              | (False, w1) \<Rightarrow> (try_remove w1 p, st\<lparr>removed_broken := removed_broken st + 1\<rparr>, None))"
            using nc by (simp add: convert_step_def Let_def)
          show ?thesis
          proof (cases "pil_save_jpeg E b")
            case None
            then have "exif_normalize_and_convert_jpg E w p ?out = (False, ?wl)"
              using jo rb by (simp add: exif_normalize_and_convert_jpg_def Let_def)
            with cs have "r = None \<and> w1 = try_remove ?wl p" unfolding cv2 by simp
            with wl show ?thesis by blast
          next
            case (Some j)
            then have "exif_normalize_and_convert_jpg E w p ?out = (True, write_file ?wl ?out j)"
              using jo rb by (simp add: exif_normalize_and_convert_jpg_def Let_def)
            with cs ki jo
            have "r = Some ?out \<and> w1 = try_remove (write_file ?wl ?out j) p"
              unfolding cv2 by simp
            with wl Some nc jo ld so show ?thesis by blast
          qed
        qed
      qed
    qed
  qed
qed


lemma hidden_same_stem: "stem q = stem p \<Longrightarrow> hidden q = hidden p"
  by (simp add: hidden_def)

lemma listed_files_cong:
  "files w1 = files w \<Longrightarrow> set (list_images w1) = set (list_images w)"
  by (simp add: set_list_images)

lemma listed_write_file:
  "ext out \<in> set exts \<Longrightarrow> \<not> hidden out \<Longrightarrow>
     set (list_images (write_file w out j)) = insert out (set (list_images w))"
  by (auto simp: set_list_images keys_write_file)

lemma read_file_files_cong: "files w1 = files w \<Longrightarrow> read_file w1 q = read_file w q"
  by (simp add: read_file_def)

lemma same_stem_same_path:
  "distinct (map stem xs) \<Longrightarrow> a \<in> set xs \<Longrightarrow> b \<in> set xs \<Longrightarrow> stem a = stem b \<Longrightarrow> a = b"
  by (meson distinct_map inj_onD)

lemma exists_in_keys: "path_exists w p \<longleftrightarrow> p \<in> fst ` set (files w)"
  by (simp add: path_exists_def read_file_def map_of_eq_None_iff)

lemma jpg_in_exts: "''.jpg'' \<in> set exts"
  by (simp add: exts_def)

lemma stage1_inv_out:
  assumes inv: "stage1_inv E c w kept (p # ps)"
    and ex: "path_exists w (Path (stem p) ''.jpg'')"
  shows "Path (stem p) ''.jpg'' = p"
proof -
  let ?out = "Path (stem p) ''.jpg''"
  from inv have ds: "distinct (map stem (kept @ p # ps))"
    and li: "set (list_images w) = set kept \<union> set (p # ps)"
    by (simp_all add: stage1_inv_def)
  have pl: "p \<in> set (list_images w)" unfolding li by simp
  then have ph: "\<not> hidden p" by (simp add: set_list_images)
  from ex have "?out \<in> fst ` set (files w)" by (simp add: exists_in_keys)
  moreover have "\<not> hidden ?out" using ph hidden_same_stem [of ?out p] by simp
  moreover have "ext ?out \<in> set exts" using jpg_in_exts by simp
  ultimately have "?out \<in> set (list_images w)" unfolding set_list_images by blast
  then have "?out \<in> set (kept @ p # ps)" unfolding li by simp
  moreover have "p \<in> set (kept @ p # ps)" by simp
  moreover have "stem ?out = stem p" by simp
  ultimately show "?out = p" by (rule same_stem_same_path [OF ds])
qed


lemma stage1_inv_remove:
  assumes inv: "stage1_inv E c w kept (p # ps)"
    and wl: "files wl = files w" "locked wl = locked w"
  shows "stage1_inv E c (try_remove wl p) kept ps"
proof -
  let ?w1 = "try_remove wl p"
  from inv have lk: "locked w = []" and dk: "distinct (map fst (files w))"
    and ds: "distinct (map stem (kept @ p # ps))"
    and li: "set (list_images w) = set kept \<union> set (p # ps)"
    and kp: "\<forall>q\<in>set kept. passes_stage1 E c w q"
    by (simp_all add: stage1_inv_def)
  from ds have dp: "distinct (kept @ p # ps)" by (simp only: distinct_map)
  then have pk: "p \<notin> set kept" and pp: "p \<notin> set ps" by simp_all
  from ds have ds': "distinct (map stem (kept @ ps))" by simp
  have l1: "locked ?w1 = []" using wl lk by simp
  have "distinct (map fst (files wl))" using dk wl by simp
  then have d1: "distinct (map fst (files ?w1))" by (rule distinct_keys_try_remove)
  have "p \<notin> set (locked wl)" using wl lk by simp
  then have "set (list_images ?w1) = set (list_images wl) - {p}" by (rule listed_try_remove)
  also have "\<dots> = set (list_images w) - {p}" using listed_files_cong [OF wl(1)] by simp
  also have "\<dots> = set kept \<union> set ps" unfolding li using pk pp by auto
  finally have s1: "set (list_images ?w1) = set kept \<union> set ps" .
  have k1: "\<forall>q\<in>set kept. passes_stage1 E c ?w1 q"
  proof
    fix q assume q: "q \<in> set kept"
    with pk have "q \<noteq> p" by blast
    then have "read_file ?w1 q = read_file wl q" by (rule read_file_try_remove)
    also have "\<dots> = read_file w q" using wl(1) by (rule read_file_files_cong)
    finally have "passes_stage1 E c ?w1 q = passes_stage1 E c w q" by (rule passes_stage1_cong)
    with kp q show "passes_stage1 E c ?w1 q" by simp
  qed
  from l1 d1 ds' s1 k1 show ?thesis unfolding stage1_inv_def by blast
qed

lemma stage1_inv_keep:
  assumes inv: "stage1_inv E c w kept (p # ps)" and ps: "passes_stage1 E c w p"
  shows "stage1_inv E c w (kept @ [p]) ps"
  using assms by (simp add: stage1_inv_def)


lemma stage1_inv_convert:
  assumes inv: "stage1_inv E c w kept (p # ps)"
    and wl: "files wl = files w" "locked wl = locked w"
    and op: "Path (stem p) ''.jpg'' \<noteq> p"
    and pj: "passes_stage1 E c (write_file wl (Path (stem p) ''.jpg'') j) (Path (stem p) ''.jpg'')"
  shows "stage1_inv E c (try_remove (write_file wl (Path (stem p) ''.jpg'') j) p)
           (kept @ [Path (stem p) ''.jpg'']) ps"
proof -
  let ?out = "Path (stem p) ''.jpg''"
  let ?w2 = "write_file wl ?out j"
  let ?w1 = "try_remove ?w2 p"
  from inv have lk: "locked w = []" and dk: "distinct (map fst (files w))"
    and ds: "distinct (map stem (kept @ p # ps))"
    and li: "set (list_images w) = set kept \<union> set (p # ps)"
    and kp: "\<forall>q\<in>set kept. passes_stage1 E c w q"
    by (simp_all add: stage1_inv_def)
  from ds have dp: "distinct (kept @ p # ps)" by (simp only: distinct_map)
  then have pk: "p \<notin> set kept" and pp: "p \<notin> set ps" by simp_all
  from ds have sk: "stem p \<notin> stem ` set kept" by simp
  have pl: "p \<in> set (list_images w)" unfolding li by simp
  then have ph: "\<not> hidden p" by (simp add: set_list_images)
  have oh: "\<not> hidden ?out" using ph hidden_same_stem [of ?out p] by simp
  have oe: "ext ?out \<in> set exts" using jpg_in_exts by simp
  have l2: "locked ?w2 = []" using wl lk by (simp add: write_file_def)
  then have l1: "locked ?w1 = []" by simp
  have "distinct (map fst (files wl))" using dk wl by simp
  then have "distinct (map fst (files ?w2))" by (rule distinct_keys_write_file)
  then have d1: "distinct (map fst (files ?w1))" by (rule distinct_keys_try_remove)
  have "p \<notin> set (locked ?w2)" using l2 by simp
  then have "set (list_images ?w1) = set (list_images ?w2) - {p}" by (rule listed_try_remove)
  also have "\<dots> = insert ?out (set (list_images wl)) - {p}"
    using listed_write_file [OF oe oh] by simp
  also have "\<dots> = insert ?out (set (list_images w)) - {p}"
    using listed_files_cong [OF wl(1)] by simp
  also have "\<dots> = set (kept @ [?out]) \<union> set ps" unfolding li using pk pp op by auto
  finally have s1: "set (list_images ?w1) = set (kept @ [?out]) \<union> set ps" .
  have "map stem ((kept @ [?out]) @ ps) = map stem (kept @ p # ps)" by simp
  then have st: "distinct (map stem ((kept @ [?out]) @ ps))" using ds by (simp only:)
  have k1: "passes_stage1 E c ?w1 q" if q: "q \<in> set kept" for q
  proof -
    from q pk have qp: "q \<noteq> p" by blast
    from q have "stem q \<in> stem ` set kept" by (rule imageI)
    with sk have "stem q \<noteq> stem p" by metis
    then have qo: "q \<noteq> ?out" by auto
    from qp have "read_file ?w1 q = read_file ?w2 q" by (rule read_file_try_remove)
    also have "\<dots> = read_file wl q" using qo by (simp add: read_file_write_file)
    also have "\<dots> = read_file w q" using wl(1) by (rule read_file_files_cong)
    finally have "passes_stage1 E c ?w1 q = passes_stage1 E c w q" by (rule passes_stage1_cong)
    with kp q show ?thesis by simp
  qed
  from op have "read_file ?w1 ?out = read_file ?w2 ?out" by (rule read_file_try_remove)
  then have "passes_stage1 E c ?w1 ?out = passes_stage1 E c ?w2 ?out" by (rule passes_stage1_cong)
  with pj have po: "passes_stage1 E c ?w1 ?out" by simp
  have k2: "\<forall>q\<in>set (kept @ [?out]). passes_stage1 E c ?w1 q" using k1 po by simp
  from l1 d1 st s1 k2 show ?thesis unfolding stage1_inv_def by blast
qed


lemma stage1_file_inv:
  assumes inv: "stage1_inv E c w kept (p # ps)"
    and f: "stage1_file E (min_side c) (jpg_only c) (keep_intermediate c) p w st = Inr (w1, st1, r)"
    and ki: "jpg_only c \<longrightarrow> \<not> keep_intermediate c"
    and cs: "converter_sound E c"
  shows "stage1_inv E c w1 (case r of None \<Rightarrow> kept | Some q \<Rightarrow> kept @ [q]) ps"
proof -
  let ?out = "Path (stem p) ''.jpg''"
  from inv have lk: "locked w = []"
    and li: "set (list_images w) = set kept \<union> set (p # ps)"
    by (simp_all add: stage1_inv_def)
  have pl: "p \<in> set (list_images w)" unfolding li by simp
  from listed_exists [OF pl] obtain b where rb: "read_file w p = Some b"
    by (auto simp: path_exists_def)
  have pnl: "p \<notin> set (locked w)" using lk by simp
  from stage1_file_cases [OF f rb pnl ki]
  show ?thesis
  proof (elim disjE conjE exE)
    fix wl assume r: "r = None" and wl: "files wl = files w" "locked wl = locked w"
      and w1: "w1 = try_remove wl p"
    from stage1_inv_remove [OF inv wl] show ?thesis unfolding r w1 by simp
  next
    assume r: "r = Some p" and w1: "w1 = w"
      and ld: "PIL_OK E \<longrightarrow> pil_open_load E b = Pil_loaded" and so: "size_ok E c b"
      and jp: "jpg_only c \<and> PIL_OK E \<longrightarrow>
                 lower (ext p) \<in> set [''.jpg'', ''.jpeg''] \<and> path_exists w ?out"
    have "jpg_only c \<and> PIL_OK E \<longrightarrow> ext p = ''.jpg''"
    proof
      assume "jpg_only c \<and> PIL_OK E"
      with jp have "path_exists w ?out" by simp
      from stage1_inv_out [OF inv this] have "ext ?out = ext p" by simp
      then show "ext p = ''.jpg''" by simp
    qed
    with ld so have "passes_stage1 E c w p" unfolding passes_stage1_iff [OF rb] by blast
    from stage1_inv_keep [OF inv this] show ?thesis unfolding r w1 by simp
  next
    fix j wl
    assume r: "r = Some ?out" and pil: "PIL_OK E" and ld: "pil_open_load E b = Pil_loaded"
      and so: "size_ok E c b"
      and nc: "\<not> (lower (ext p) \<in> set [''.jpg'', ''.jpeg''] \<and> path_exists w ?out)"
      and wl: "files wl = files w" "locked wl = locked w"
      and sj: "pil_save_jpeg E b = Some j"
      and w1: "w1 = try_remove (write_file wl ?out j) p"
    have op: "?out \<noteq> p"
    proof
      assume e: "?out = p"
      then have "ext ?out = ext p" by simp
      then have ep: "ext p = ''.jpg''" by simp
      have "path_exists w p" using rb by (simp add: path_exists_def)
      then have "path_exists w ?out" unfolding e .
      moreover have "lower (ext p) \<in> set [''.jpg'', ''.jpeg'']" unfolding ep lower_jpg by simp
      ultimately show False using nc by blast
    qed
    have ro: "read_file (write_file wl ?out j) ?out = Some j" by (simp add: read_file_write_file)
    from cs sj ld so have "pil_open_load E j = Pil_loaded \<and> size_ok E c j"
      unfolding converter_sound_def by blast
    then have "passes_stage1 E c (write_file wl ?out j) ?out"
      unfolding passes_stage1_iff [OF ro] by simp
    from stage1_inv_convert [OF inv wl op this] show ?thesis unfolding r w1 by simp
  qed
qed

lemma stage1_inv_loop:
  assumes "stage1 E (min_side c) (jpg_only c) (keep_intermediate c) ps w st kept = Inr (w1, st1, kept1)"
    and "stage1_inv E c w kept ps"
    and ki: "jpg_only c \<longrightarrow> \<not> keep_intermediate c"
    and cs: "converter_sound E c"
  shows "stage1_inv E c w1 kept1 []"
  using assms(1,2)
proof (induction ps arbitrary: w st kept)
  case Nil
  then show ?case by simp
next
  case (Cons p ps)
  from Cons.prems(1) obtain w' st' r where
    f: "stage1_file E (min_side c) (jpg_only c) (keep_intermediate c) p w st = Inr (w', st', r)"
    by (cases "stage1_file E (min_side c) (jpg_only c) (keep_intermediate c) p w st") auto
  from stage1_file_inv [OF Cons.prems(2) f ki cs]
  have inv': "stage1_inv E c w' (case r of None \<Rightarrow> kept | Some q \<Rightarrow> kept @ [q]) ps" .
  have "stage1 E (min_side c) (jpg_only c) (keep_intermediate c) ps w' st'
          (case r of None \<Rightarrow> kept | Some q \<Rightarrow> kept @ [q]) = Inr (w1, st1, kept1)"
    using Cons.prems(1) f by (cases r) simp_all
  from Cons.IH [OF this inv'] show ?case .
qed


lemma map_of_filter_key:
  "Q q \<Longrightarrow> map_of (filter (\<lambda>e. Q (fst e)) xs) q = map_of xs q"
  by (induction xs) auto

lemma kept_files:
  assumes fl: "files w' = filter (\<lambda>e. fst e \<in> set new \<or> fst e \<notin> set ps
                                      \<or> fst e \<in> set (locked w)) (files w)"
    and lk: "locked w = []" and li: "set (list_images w) = set ps" and sub: "set new \<subseteq> set ps"
    and dk: "distinct (map fst (files w))"
  shows "set (list_images w') = set new \<and> distinct (map fst (files w'))
         \<and> (\<forall>q\<in>set new. read_file w' q = read_file w q)"
proof (intro conjI ballI)
  have "set new \<subseteq> set (list_images w)" using sub li by simp
  then have n: "\<And>q. q \<in> set new \<Longrightarrow> q \<in> fst ` set (files w) \<and> ext q \<in> set exts \<and> \<not> hidden q"
    unfolding set_list_images by blast
  have p: "\<And>q. q \<in> fst ` set (files w) \<Longrightarrow> ext q \<in> set exts \<Longrightarrow> \<not> hidden q \<Longrightarrow> q \<in> set ps"
    using li unfolding set_list_images by blast
  have k: "fst ` set (files w') = {q \<in> fst ` set (files w). q \<in> set new \<or> q \<notin> set ps}"
    unfolding fl lk by auto
  show "set (list_images w') = set new"
    unfolding set_list_images k using n p by blast
  show "distinct (map fst (files w'))" unfolding fl using dk by (rule distinct_map_filter)
  fix q assume "q \<in> set new"
  then have "q \<in> set new \<or> q \<notin> set ps \<or> q \<in> set (locked w)" by simp
  then show "read_file w' q = read_file w q"
    unfolding read_file_def fl
    by (rule map_of_filter_key [where Q = "\<lambda>q. q \<in> set new \<or> q \<notin> set ps \<or> q \<in> set (locked w)"])
qed


lemma far_apart_map_set:
  "distinct xs \<Longrightarrow>
     far_apart thr (map (\<lambda>p. (p, f p)) xs)
       \<longleftrightarrow> (\<forall>a\<in>set xs. \<forall>b\<in>set xs. a \<noteq> b \<longrightarrow> thr < hamming_distance (f a) (f b))"
proof (induction xs)
  case Nil
  then show ?case by simp
next
  case (Cons x xs)
  from Cons.prems have xn: "x \<notin> set xs" and d: "distinct xs" by simp_all
  have la: "list_all (\<lambda>e'. thr < hamming_distance (f x) (snd e')) (map (\<lambda>p. (p, f p)) xs)
          \<longleftrightarrow> (\<forall>b\<in>set xs. thr < hamming_distance (f x) (f b))"
    by (simp add: list_all_iff)
  have sym: "\<And>b. hamming_distance (f b) (f x) = hamming_distance (f x) (f b)"
    by (rule hamming_distance_sym)
  have "far_apart thr (map (\<lambda>p. (p, f p)) (x # xs))
      \<longleftrightarrow> (\<forall>b\<in>set xs. thr < hamming_distance (f x) (f b))
          \<and> (\<forall>a\<in>set xs. \<forall>b\<in>set xs. a \<noteq> b \<longrightarrow> thr < hamming_distance (f a) (f b))"
    unfolding list.map far_apart.simps snd_conv la Cons.IH [OF d] ..
  also have "\<dots> \<longleftrightarrow> (\<forall>a\<in>set (x # xs). \<forall>b\<in>set (x # xs). a \<noteq> b \<longrightarrow>
                             thr < hamming_distance (f a) (f b))"
  proof (intro iffI conjI ballI impI)
    fix a b
    assume h: "(\<forall>b\<in>set xs. thr < hamming_distance (f x) (f b))
          \<and> (\<forall>a\<in>set xs. \<forall>b\<in>set xs. a \<noteq> b \<longrightarrow> thr < hamming_distance (f a) (f b))"
      and a: "a \<in> set (x # xs)" and b: "b \<in> set (x # xs)" and ab: "a \<noteq> b"
    show "thr < hamming_distance (f a) (f b)"
    proof (cases "a = x")
      case True
      with ab b have "b \<in> set xs" by auto
      with h True show ?thesis by blast
    next
      case False
      with a have ax: "a \<in> set xs" by simp
      show ?thesis
      proof (cases "b = x")
        case True
        from h ax have "thr < hamming_distance (f x) (f a)" by blast
        then show ?thesis unfolding True sym .
      next
        case False
        with b have "b \<in> set xs" by simp
        with h ax ab show ?thesis by blast
      qed
    qed
  next
    fix b
    assume h: "\<forall>a\<in>set (x # xs). \<forall>b\<in>set (x # xs). a \<noteq> b \<longrightarrow>
                 thr < hamming_distance (f a) (f b)" and b: "b \<in> set xs"
    with xn have "x \<noteq> b" by blast
    with h b show "thr < hamming_distance (f x) (f b)" by simp
  next
    fix a b
    assume h: "\<forall>a\<in>set (x # xs). \<forall>b\<in>set (x # xs). a \<noteq> b \<longrightarrow>
                 thr < hamming_distance (f a) (f b)"
      and "a \<in> set xs" "b \<in> set xs" "a \<noteq> b"
    then show "thr < hamming_distance (f a) (f b)" by simp
  qed
  finally show ?case .
qed


lemma stage4_frame_locked:
  "stage4 thr E ps w st seen acc = (w1, st1, seen1, acc1) \<Longrightarrow> locked w1 = locked w"
proof (induction ps arbitrary: w st seen acc)
  case Nil
  then show ?case by simp
next
  case (Cons p ps)
  show ?case
  proof (cases "perceptual_hash E (log_hash w p) p")
    case None
    with Cons.prems have
      "stage4 thr E ps (try_remove (log_hash w p) p)
         (st\<lparr>removed_broken := removed_broken st + 1\<rparr>) seen acc = (w1, st1, seen1, acc1)"
      by (simp add: Let_def)
    from Cons.IH [OF this] show ?thesis by (simp add: log_hash_def)
  next
    case (Some ph)
    show ?thesis
    proof (cases "is_dup thr seen ph")
      case True
      with Some Cons.prems have
        "stage4 thr E ps (try_remove (log_hash w p) p)
           (st\<lparr>removed_dup_phash := removed_dup_phash st + 1\<rparr>) seen acc = (w1, st1, seen1, acc1)"
        by (simp add: Let_def)
      from Cons.IH [OF this] show ?thesis by (simp add: log_hash_def)
    next
      case False
      with Some Cons.prems have
        "stage4 thr E ps (log_hash w p) st (seen @ [(p, ph)]) (acc @ [p]) = (w1, st1, seen1, acc1)"
        by (simp add: Let_def)
      from Cons.IH [OF this] show ?thesis by (simp add: log_hash_def)
    qed
  qed
qed


end
